theory Spec2Isabelle
  imports Main "HOL-Library.Word"
begin

unbundle bit_operations_syntax

section \<open>Platform model\<close>

text \<open>
  The serial backend of StringZilla (\<^verbatim>\<open>src/serial.c\<close>) works on (pointer, length) pairs
  over \<^verbatim>\<open>char\<close>. A string is modelled as the list of its bytes, its length being the
  length of the list. Three facts of the C platform are visible in the code and are
  kept explicit:
  \<^item> bytes are packed into wider words in little-endian order (the \<^verbatim>\<open>u8s\<close> member of
    \<^verbatim>\<open>sz_u64_parts_t\<close> and the unaligned loads);
  \<^item> the signedness of plain \<^verbatim>\<open>char\<close> is implementation-defined: every function that
    converts a \<^verbatim>\<open>char\<close> to a wider integer takes a flag \<open>sg\<close>, \<open>True\<close> where plain
    \<^verbatim>\<open>char\<close> is signed (x86-64 System V, Windows) and \<open>False\<close> where it is unsigned
    (AArch64 Linux);
  \<^item> the kernels with an alignment prologue look at the numeric address of the haystack,
    which is the parameter \<open>addr\<close>. Pointer arithmetic is done on integers without
    wrap-around; positions are offsets from the start of the haystack.
  An access outside the object it belongs to is the value \<open>Inl OutOfBounds\<close>, a
  shift by a count the C standard leaves undefined is \<open>Inl UndefinedShift\<close>.
\<close>

type_synonym sz_u8_t = "8 word"
type_synonym sz_u16_t = "16 word"
type_synonym sz_u64_t = "64 word"
type_synonym sz_size_t = "64 word"
type_synonym sz_ssize_t = "64 word"
type_synonym c_char = "8 word"

datatype fault = OutOfBounds | UndefinedShift

text \<open>
  A loop of the source either executes \<^verbatim>\<open>return r\<close> or ends and leaves its cursor to
  the code that follows it.
\<close>

datatype ('r, 's) flow = Return 'r | Fall 's

text \<open>Conversion of a plain \<^verbatim>\<open>char\<close> to \<^verbatim>\<open>int\<close> and to \<^verbatim>\<open>sz_u64_t\<close>.\<close>

definition char_to_int :: "bool \<Rightarrow> c_char \<Rightarrow> int" where
  "char_to_int sg c = (if sg then sint c else uint c)"

definition char_to_u64 :: "bool \<Rightarrow> c_char \<Rightarrow> sz_u64_t" where
  "char_to_u64 sg c = (if sg then scast c else ucast c)"

text \<open>Little-endian packing of bytes, as an unaligned load or the \<^verbatim>\<open>u8s\<close> view does it.\<close>

fun le_word :: "c_char list \<Rightarrow> 'a::len word" where
  "le_word [] = 0"
| "le_word (b # bs) = ucast b OR push_bit 8 (le_word bs)"

definition sz_u16_unaligned_load :: "c_char list \<Rightarrow> nat \<Rightarrow> sz_u16_t" where
  "sz_u16_unaligned_load xs i = le_word (take 2 (drop i xs))"

definition sz_u32_unaligned_load :: "c_char list \<Rightarrow> nat \<Rightarrow> 32 word" where
  "sz_u32_unaligned_load xs i = le_word (take 4 (drop i xs))"

definition sz_u64_unaligned_load :: "c_char list \<Rightarrow> nat \<Rightarrow> sz_u64_t" where
  "sz_u64_unaligned_load xs i = le_word (take 8 (drop i xs))"

definition u8s :: "sz_u64_t \<Rightarrow> sz_u8_t list" where
  "u8s w = map (\<lambda>k. ucast (drop_bit (8 * k) w)) [0..<8]"

definition sz_u64_byte_reverse :: "sz_u64_t \<Rightarrow> sz_u64_t" where
  "sz_u64_byte_reverse val = le_word (rev (u8s val))"

text \<open>\<^verbatim>\<open>u.u8s[i] = v\<close> on a \<^verbatim>\<open>sz_u64_parts_t\<close>.\<close>

definition set_u8s :: "sz_u64_t \<Rightarrow> nat \<Rightarrow> c_char \<Rightarrow> sz_u64_t" where
  "set_u8s w i v = le_word ((u8s w)[i := v])"

text \<open>
  \<^verbatim>\<open>__builtin_ctzll\<close> and \<^verbatim>\<open>__builtin_clzll\<close>; both are called on non-zero words only.
\<close>

definition sz_ctz64 :: "sz_u64_t \<Rightarrow> nat" where
  "sz_ctz64 w = length (takeWhile Not (map (bit w) [0..<64]))"

definition sz_clz64 :: "sz_u64_t \<Rightarrow> nat" where
  "sz_clz64 w = length (takeWhile Not (rev (map (bit w) [0..<64])))"

section \<open>Byte primitives\<close>

subsection \<open>\<^verbatim>\<open>sz_equal_serial\<close>\<close>

text \<open>
  With \<^verbatim>\<open>SZ_USE_MISALIGNED_LOADS\<close> (the default, and the only setting under which
  \<^verbatim>\<open>sz_order_serial\<close> compiles) the comparison is a switch on the length that jumps
  back to itself after every eight equal bytes. \<open>i\<close> and \<open>j\<close> are the offsets of the
  two cursors in their objects; a read past the end of either object is a fault.
\<close>

function sz_equal_serial :: "c_char list \<Rightarrow> nat \<Rightarrow> c_char list \<Rightarrow> nat \<Rightarrow> nat \<Rightarrow> fault + bool" where
  "sz_equal_serial a i b j len =
    (if length a < i + len \<or> length b < j + len then Inl OutOfBounds
     else if len = 0 then Inr True
     else if len = 1 then Inr (a ! i = b ! j)
     else if len = 2 then Inr (sz_u16_unaligned_load a i = sz_u16_unaligned_load b j)
     else if len = 3 then Inr (sz_u16_unaligned_load a i = sz_u16_unaligned_load b j
                               \<and> a ! (i + 2) = b ! (j + 2))
     else if len = 4 then Inr (sz_u32_unaligned_load a i = sz_u32_unaligned_load b j)
     else if len = 5 then Inr (sz_u32_unaligned_load a i = sz_u32_unaligned_load b j
                               \<and> a ! (i + 4) = b ! (j + 4))
     else if len = 6 then Inr (sz_u32_unaligned_load a i = sz_u32_unaligned_load b j
                               \<and> sz_u16_unaligned_load a (i + 4) = sz_u16_unaligned_load b (j + 4))
     else if len = 7 then Inr (sz_u32_unaligned_load a i = sz_u32_unaligned_load b j
                               \<and> sz_u16_unaligned_load a (i + 4) = sz_u16_unaligned_load b (j + 4)
                               \<and> a ! (i + 6) = b ! (j + 6))
     else if len = 8 then Inr (sz_u64_unaligned_load a i = sz_u64_unaligned_load b j)
     else if sz_u64_unaligned_load a i \<noteq> sz_u64_unaligned_load b j then Inr False
     else sz_equal_serial a (i + 8) b (j + 8) (len - 8))"
  by pat_completeness auto
termination
  by (relation "measure (\<lambda>(a, i, b, j, len). len)") auto

subsection \<open>\<^verbatim>\<open>sz_order_serial\<close>\<close>

datatype sz_ordering_t = sz_less_k | sz_equal_k | sz_greater_k

text \<open>\<^verbatim>\<open>ordering_lookup[2] = {sz_greater_k, sz_less_k}\<close>, indexed by a comparison.\<close>

definition ordering_lookup :: "bool \<Rightarrow> sz_ordering_t" where
  "ordering_lookup lt = (if lt then sz_less_k else sz_greater_k)"

text \<open>
  The first loop compares eight bytes at a time as byte-reversed 64-bit words; it
  returns the ordering, or the offset at which it stopped.
\<close>

function order_words :: "c_char list \<Rightarrow> c_char list \<Rightarrow> nat \<Rightarrow> nat \<Rightarrow> (sz_ordering_t, nat) flow" where
  "order_words a b min_length i =
    (if i + 8 \<le> min_length then
       (let a_vec = sz_u64_byte_reverse (sz_u64_unaligned_load a i);
            b_vec = sz_u64_byte_reverse (sz_u64_unaligned_load b i)
        in if a_vec \<noteq> b_vec then Return (ordering_lookup (a_vec < b_vec))
           else order_words a b min_length (i + 8))
     else Fall i)"
  by pat_completeness auto
termination
  by (relation "measure (\<lambda>(a, b, min_length, i). min_length - i)") auto

declare order_words.simps [simp del]

text \<open>
  The second loop compares the remaining bytes one at a time, as plain \<^verbatim>\<open>char\<close>
  (\<^verbatim>\<open>*a < *b\<close>); it returns the ordering, or nothing when it reaches \<^verbatim>\<open>min_end\<close>.
\<close>

function order_bytes :: "bool \<Rightarrow> c_char list \<Rightarrow> c_char list \<Rightarrow> nat \<Rightarrow> nat \<Rightarrow> sz_ordering_t option" where
  "order_bytes sg a b min_length i =
    (if i < min_length then
       (if a ! i \<noteq> b ! i then Some (ordering_lookup (char_to_int sg (a ! i) < char_to_int sg (b ! i)))
        else order_bytes sg a b min_length (i + 1))
     else None)"
  by pat_completeness auto
termination
  by (relation "measure (\<lambda>(sg, a, b, min_length, i). min_length - i)") auto

declare order_bytes.simps [simp del]

definition sz_order_serial :: "bool \<Rightarrow> c_char list \<Rightarrow> c_char list \<Rightarrow> sz_ordering_t" where
  "sz_order_serial sg a b =
    (let a_shorter = length a < length b;
         min_length = (if a_shorter then length a else length b)
     in case order_words a b min_length 0 of
          Return r \<Rightarrow> r
        | Fall i \<Rightarrow>
            (case order_bytes sg a b min_length i of
               Some r \<Rightarrow> r
             | None \<Rightarrow> if length a \<noteq> length b then ordering_lookup a_shorter else sz_equal_k))"

subsection \<open>\<^verbatim>\<open>sz_find_byte_serial\<close> and \<^verbatim>\<open>sz_rfind_byte_serial\<close>\<close>

definition sz_u64_each_byte_equal :: "sz_u64_t \<Rightarrow> sz_u64_t \<Rightarrow> sz_u64_t" where
  "sz_u64_each_byte_equal a b =
    (let match_indicators = NOT (a XOR b)
     in ((match_indicators AND 0x7F7F7F7F7F7F7F7F) + 0x0101010101010101)
        AND (match_indicators AND 0x8080808080808080))"

text \<open>The misaligned head: byte by byte until the address \<open>addr + text\<close> is a multiple of 8.\<close>

function find_byte_head :: "nat \<Rightarrow> c_char list \<Rightarrow> c_char \<Rightarrow> nat \<Rightarrow> (nat option, nat) flow" where
  "find_byte_head addr haystack c text =
    (if (addr + text) mod 8 \<noteq> 0 \<and> text < length haystack then
       (if haystack ! text = c then Return (Some text)
        else find_byte_head addr haystack c (text + 1))
     else Fall text)"
  by pat_completeness auto
termination
  by (relation "measure (\<lambda>(addr, haystack, c, text). length haystack - text)") auto

function find_byte_swar :: "c_char list \<Rightarrow> sz_u64_t \<Rightarrow> nat \<Rightarrow> (nat option, nat) flow" where
  "find_byte_swar haystack needle_vec text =
    (if text + 8 \<le> length haystack then
       (let text_slice = sz_u64_unaligned_load haystack text;
            match_indicators = sz_u64_each_byte_equal text_slice needle_vec
        in if match_indicators \<noteq> 0 then Return (Some (text + sz_ctz64 match_indicators div 8))
           else find_byte_swar haystack needle_vec (text + 8))
     else Fall text)"
  by pat_completeness auto
termination
  by (relation "measure (\<lambda>(haystack, needle_vec, text). length haystack - text)") auto

function find_byte_tail :: "c_char list \<Rightarrow> c_char \<Rightarrow> nat \<Rightarrow> nat option" where
  "find_byte_tail haystack c text =
    (if text < length haystack then
       (if haystack ! text = c then Some text else find_byte_tail haystack c (text + 1))
     else None)"
  by pat_completeness auto
termination
  by (relation "measure (\<lambda>(haystack, c, text). length haystack - text)") auto

text \<open>
  \<^verbatim>\<open>needle\<close> points to at least one byte; \<^verbatim>\<open>needle[0]\<close> is read on every path (the
  broadcast \<^verbatim>\<open>(sz_u64_t)needle[0] * 0x0101010101010101ull\<close>).
\<close>

definition sz_find_byte_serial :: "bool \<Rightarrow> nat \<Rightarrow> c_char list \<Rightarrow> c_char list \<Rightarrow> fault + nat option" where
  "sz_find_byte_serial sg addr haystack needle =
    (if needle = [] then Inl OutOfBounds
     else case find_byte_head addr haystack (needle ! 0) 0 of
       Return r \<Rightarrow> Inr r
     | Fall text \<Rightarrow>
         (let needle_vec = char_to_u64 sg (needle ! 0) * 0x0101010101010101
          in case find_byte_swar haystack needle_vec text of
               Return r \<Rightarrow> Inr r
             | Fall text' \<Rightarrow> Inr (find_byte_tail haystack (needle ! 0) text')))"

text \<open>
  The reverse scan. The cursor \<open>text\<close> starts at \<^verbatim>\<open>end - 1\<close> and may reach
  \<^verbatim>\<open>haystack - 1\<close>, so it is an integer offset. The 64-bit load of the middle loop is
  taken at \<^verbatim>\<open>text\<close> itself (\<^verbatim>\<open>*(sz_u64_t const *)text\<close>), that is bytes
  \<open>text .. text + 7\<close>; when they do not all lie inside the haystack the load is a fault.
\<close>

function rfind_byte_head :: "nat \<Rightarrow> c_char list \<Rightarrow> c_char \<Rightarrow> int \<Rightarrow> (nat option, int) flow" where
  "rfind_byte_head addr haystack c text =
    (if (int addr + text) mod 8 \<noteq> 0 \<and> text \<ge> 0 then
       (if haystack ! nat text = c then Return (Some (nat text))
        else rfind_byte_head addr haystack c (text - 1))
     else Fall text)"
  by pat_completeness auto
termination
  by (relation "measure (\<lambda>(addr, haystack, c, text). nat (text + 1))") auto

function rfind_byte_swar :: "c_char list \<Rightarrow> sz_u64_t \<Rightarrow> int \<Rightarrow> fault + (nat option, int) flow" where
  "rfind_byte_swar haystack needle_vec text =
    (if text - 8 \<ge> 0 then
       (if int (length haystack) < text + 8 then Inl OutOfBounds
        else
          (let text_slice = sz_u64_unaligned_load haystack (nat text);
               match_indicators = sz_u64_each_byte_equal text_slice needle_vec
           in if match_indicators \<noteq> 0
              then Inr (Return (Some (nat (text - 8) + sz_clz64 match_indicators div 8)))
              else rfind_byte_swar haystack needle_vec (text - 8)))
     else Inr (Fall text))"
  by pat_completeness auto
termination
  by (relation "measure (\<lambda>(haystack, needle_vec, text). nat text)") auto

function rfind_byte_tail :: "c_char list \<Rightarrow> c_char \<Rightarrow> int \<Rightarrow> nat option" where
  "rfind_byte_tail haystack c text =
    (if text \<ge> 0 then
       (if haystack ! nat text = c then Some (nat text) else rfind_byte_tail haystack c (text - 1))
     else None)"
  by pat_completeness auto
termination
  by (relation "measure (\<lambda>(haystack, c, text). nat (text + 1))") auto

definition sz_rfind_byte_serial :: "bool \<Rightarrow> nat \<Rightarrow> c_char list \<Rightarrow> c_char list \<Rightarrow> fault + nat option" where
  "sz_rfind_byte_serial sg addr haystack needle =
    (if needle = [] then Inl OutOfBounds
     else case rfind_byte_head addr haystack (needle ! 0) (int (length haystack) - 1) of
       Return r \<Rightarrow> Inr r
     | Fall text \<Rightarrow>
         (let needle_vec = char_to_u64 sg (needle ! 0) * 0x0101010101010101
          in case rfind_byte_swar haystack needle_vec text of
               Inl f \<Rightarrow> Inl f
             | Inr (Return r) \<Rightarrow> Inr r
             | Inr (Fall text') \<Rightarrow> Inr (rfind_byte_tail haystack (needle ! 0) text')))"

section \<open>Substring search\<close>

subsection \<open>\<^verbatim>\<open>sz_find_2byte_serial\<close>\<close>

definition sz_u64_each_2byte_equal :: "sz_u64_t \<Rightarrow> sz_u64_t \<Rightarrow> sz_u64_t" where
  "sz_u64_each_2byte_equal a b =
    (let match_indicators = NOT (a XOR b)
     in ((match_indicators AND 0x7FFF7FFF7FFF7FFF) + 0x0001000100010001)
        AND (match_indicators AND 0x8000800080008000))"

text \<open>The main loop loads eight bytes and advances by seven.\<close>

function find_2byte_swar :: "c_char list \<Rightarrow> sz_u64_t \<Rightarrow> nat \<Rightarrow> (nat option, nat) flow" where
  "find_2byte_swar haystack needle_vec text =
    (if text + 8 \<le> length haystack then
       (let text_vec = sz_u64_unaligned_load haystack text;
            matches_even_vec = sz_u64_each_2byte_equal text_vec needle_vec;
            matches_odd_vec = sz_u64_each_2byte_equal (drop_bit 8 text_vec) needle_vec
        in if matches_even_vec + matches_odd_vec \<noteq> 0 then
             (let match_indicators = drop_bit 8 matches_even_vec OR matches_odd_vec
              in Return (Some (text + sz_ctz64 match_indicators div 8)))
           else find_2byte_swar haystack needle_vec (text + 7))
     else Fall text)"
  by pat_completeness auto
termination
  by (relation "measure (\<lambda>(haystack, needle_vec, text). length haystack - text)") auto

function find_2byte_tail :: "c_char list \<Rightarrow> c_char list \<Rightarrow> nat \<Rightarrow> nat option" where
  "find_2byte_tail haystack needle text =
    (if text + 2 \<le> length haystack then
       (if haystack ! text = needle ! 0 \<and> haystack ! (text + 1) = needle ! 1 then Some text
        else find_2byte_tail haystack needle (text + 1))
     else None)"
  by pat_completeness auto
termination
  by (relation "measure (\<lambda>(haystack, needle, text). length haystack - text)") auto

definition sz_find_2byte_serial :: "c_char list \<Rightarrow> c_char list \<Rightarrow> fault + nat option" where
  "sz_find_2byte_serial haystack needle =
    (if length needle < 2 then Inl OutOfBounds
     else
       (let needle_vec = set_u8s (set_u8s 0 0 (needle ! 0)) 1 (needle ! 1) * 0x0001000100010001
        in case find_2byte_swar haystack needle_vec 0 of
             Return r \<Rightarrow> Inr r
           | Fall text \<Rightarrow> Inr (find_2byte_tail haystack needle text)))"

subsection \<open>\<^verbatim>\<open>sz_find_3byte_serial\<close>\<close>

function find_3byte_head :: "nat \<Rightarrow> c_char list \<Rightarrow> c_char list \<Rightarrow> nat \<Rightarrow> (nat option, nat) flow" where
  "find_3byte_head addr haystack needle text =
    (if (addr + text) mod 8 \<noteq> 0 \<and> text + 3 \<le> length haystack then
       (if haystack ! text = needle ! 0 \<and> haystack ! (text + 1) = needle ! 1
           \<and> haystack ! (text + 2) = needle ! 2 then Return (Some text)
        else find_3byte_head addr haystack needle (text + 1))
     else Fall text)"
  by pat_completeness auto
termination
  by (relation "measure (\<lambda>(addr, haystack, needle, text). length haystack - text)") auto

text \<open>
  \<^verbatim>\<open>x &= x >> 1; x &= x >> 2; x &= x >> 4;\<close> followed by the three-way combination of
  neighbouring bytes under the mask \<^verbatim>\<open>0x0000010000010000\<close>.
\<close>

definition fold_3byte_indicators :: "sz_u64_t \<Rightarrow> sz_u64_t" where
  "fold_3byte_indicators x0 =
    (let x1 = x0 AND drop_bit 1 x0;
         x2 = x1 AND drop_bit 2 x1;
         x3 = x2 AND drop_bit 4 x2
     in drop_bit 16 x3 AND drop_bit 8 x3 AND x3 AND 0x0000010000010000)"

function find_3byte_swar :: "c_char list \<Rightarrow> sz_u64_t \<Rightarrow> nat \<Rightarrow> (nat option, nat) flow" where
  "find_3byte_swar haystack nn text =
    (if text + 8 \<le> length haystack then
       (let text_slice = sz_u64_unaligned_load haystack text;
            first_indicators = fold_3byte_indicators (NOT (text_slice XOR nn));
            second_indicators = fold_3byte_indicators (NOT (push_bit 8 text_slice XOR nn));
            third_indicators = fold_3byte_indicators (NOT (push_bit 16 text_slice XOR nn));
            match_indicators =
              first_indicators OR drop_bit 8 second_indicators OR drop_bit 16 third_indicators
        in if match_indicators \<noteq> 0 then Return (Some (text + sz_ctz64 match_indicators div 8))
           else find_3byte_swar haystack nn (text + 6))
     else Fall text)"
  by pat_completeness auto
termination
  by (relation "measure (\<lambda>(haystack, nn, text). length haystack - text)") auto

function find_3byte_tail :: "c_char list \<Rightarrow> c_char list \<Rightarrow> nat \<Rightarrow> nat option" where
  "find_3byte_tail haystack needle text =
    (if text + 3 \<le> length haystack then
       (if haystack ! text = needle ! 0 \<and> haystack ! (text + 1) = needle ! 1
           \<and> haystack ! (text + 2) = needle ! 2 then Some text
        else find_3byte_tail haystack needle (text + 1))
     else None)"
  by pat_completeness auto
termination
  by (relation "measure (\<lambda>(haystack, needle, text). length haystack - text)") auto

text \<open>
  The broadcast converts each needle \<^verbatim>\<open>char\<close> to \<^verbatim>\<open>sz_u64_t\<close>
  (\<^verbatim>\<open>(sz_u64_t)(needle[0] << 0) | ((sz_u64_t)(needle[1]) << 8) | ...\<close>), which
  sign-extends where plain \<^verbatim>\<open>char\<close> is signed.
\<close>

definition sz_find_3byte_serial :: "bool \<Rightarrow> nat \<Rightarrow> c_char list \<Rightarrow> c_char list \<Rightarrow> fault + nat option" where
  "sz_find_3byte_serial sg addr haystack needle =
    (if length needle < 3 then Inl OutOfBounds
     else case find_3byte_head addr haystack needle 0 of
       Return r \<Rightarrow> Inr r
     | Fall text \<Rightarrow>
         (let nn0 = char_to_u64 sg (needle ! 0) OR push_bit 8 (char_to_u64 sg (needle ! 1))
                    OR push_bit 16 (char_to_u64 sg (needle ! 2));
              nn1 = nn0 OR push_bit 24 nn0;
              nn = push_bit 16 nn1
          in case find_3byte_swar haystack nn text of
               Return r \<Rightarrow> Inr r
             | Fall text' \<Rightarrow> Inr (find_3byte_tail haystack needle text')))"

subsection \<open>\<^verbatim>\<open>sz_find_4byte_serial\<close>\<close>

function find_4byte_head :: "nat \<Rightarrow> c_char list \<Rightarrow> c_char list \<Rightarrow> nat \<Rightarrow> (nat option, nat) flow" where
  "find_4byte_head addr haystack needle text =
    (if (addr + text) mod 8 \<noteq> 0 \<and> text + 4 \<le> length haystack then
       (if haystack ! text = needle ! 0 \<and> haystack ! (text + 1) = needle ! 1
           \<and> haystack ! (text + 2) = needle ! 2 \<and> haystack ! (text + 3) = needle ! 3
        then Return (Some text)
        else find_4byte_head addr haystack needle (text + 1))
     else Fall text)"
  by pat_completeness auto
termination
  by (relation "measure (\<lambda>(addr, haystack, needle, text). length haystack - text)") auto

text \<open>
  The 16-entry table \<^verbatim>\<open>offset_in_slice\<close>, filled as the source fills it. Its index
  \<^verbatim>\<open>match_indicators\<close> is an \<^verbatim>\<open>unsigned char\<close> built from bits 0 and 32 of the two
  indicator words, so only its four low bits can be set.
\<close>

definition offset_in_slice :: "nat list" where
  "offset_in_slice =
    (((((((replicate 16 0)[0x2 := 1])[0x6 := 1])[0xA := 1])[0xE := 1])[0x4 := 2])[0xC := 2])[0x8 := 3]"

definition fold_4byte_indicators :: "sz_u64_t \<Rightarrow> sz_u64_t" where
  "fold_4byte_indicators x0 =
    (let x1 = x0 AND drop_bit 1 x0;
         x2 = x1 AND drop_bit 2 x1;
         x3 = x2 AND drop_bit 4 x2;
         x4 = x3 AND drop_bit 8 x3;
         x5 = x4 AND drop_bit 16 x4
     in x5 AND 0x0000000100000001)"

function find_4byte_swar :: "c_char list \<Rightarrow> sz_u64_t \<Rightarrow> nat \<Rightarrow> (nat option, nat) flow" where
  "find_4byte_swar haystack nn text =
    (if text + 8 \<le> length haystack then
       (let text_slice = sz_u64_unaligned_load haystack text;
            text01 = (text_slice AND 0x00000000FFFFFFFF)
                     OR push_bit 24 (text_slice AND 0x000000FFFFFFFF00);
            text23 = drop_bit 16 (text_slice AND 0x0000FFFFFFFF0000)
                     OR push_bit 8 (text_slice AND 0x00FFFFFFFF000000);
            text01_indicators = fold_4byte_indicators (NOT (text01 XOR nn));
            text23_indicators = fold_4byte_indicators (NOT (text23 XOR nn))
        in if text01_indicators + text23_indicators \<noteq> 0 then
             (let match_indicators = (ucast (drop_bit 31 text01_indicators OR text01_indicators
                                        OR drop_bit 29 text23_indicators
                                        OR push_bit 2 text23_indicators) :: 8 word)
              in Return (Some (text + offset_in_slice ! unat match_indicators)))
           else find_4byte_swar haystack nn (text + 4))
     else Fall text)"
  by pat_completeness auto
termination
  by (relation "measure (\<lambda>(haystack, nn, text). length haystack - text)") auto

function find_4byte_tail :: "c_char list \<Rightarrow> c_char list \<Rightarrow> nat \<Rightarrow> nat option" where
  "find_4byte_tail haystack needle text =
    (if text + 4 \<le> length haystack then
       (if haystack ! text = needle ! 0 \<and> haystack ! (text + 1) = needle ! 1
           \<and> haystack ! (text + 2) = needle ! 2 \<and> haystack ! (text + 3) = needle ! 3
        then Some text
        else find_4byte_tail haystack needle (text + 1))
     else None)"
  by pat_completeness auto
termination
  by (relation "measure (\<lambda>(haystack, needle, text). length haystack - text)") auto

definition sz_find_4byte_serial :: "bool \<Rightarrow> nat \<Rightarrow> c_char list \<Rightarrow> c_char list \<Rightarrow> fault + nat option" where
  "sz_find_4byte_serial sg addr haystack needle =
    (if length needle < 4 then Inl OutOfBounds
     else case find_4byte_head addr haystack needle 0 of
       Return r \<Rightarrow> Inr r
     | Fall text \<Rightarrow>
         (let nn0 = char_to_u64 sg (needle ! 0) OR push_bit 8 (char_to_u64 sg (needle ! 1))
                    OR push_bit 16 (char_to_u64 sg (needle ! 2))
                    OR push_bit 24 (char_to_u64 sg (needle ! 3));
              nn = nn0 OR push_bit 32 nn0
          in case find_4byte_swar haystack nn text of
               Return r \<Rightarrow> Inr r
             | Fall text' \<Rightarrow> Inr (find_4byte_tail haystack needle text')))"

subsection \<open>Bitap kernels\<close>

text \<open>
  \<^verbatim>\<open>sz_find_under8byte_serial\<close>, \<^verbatim>\<open>sz_find_under16byte_serial\<close> and
  \<^verbatim>\<open>sz_find_under64byte_serial\<close> are the same text over \<^verbatim>\<open>sz_u8_t\<close>, \<^verbatim>\<open>sz_u16_t\<close>
  and \<^verbatim>\<open>sz_u64_t\<close>; the model is one function over the width of the state word.
  \<^verbatim>\<open>pattern_mask\<close> has 256 entries and is indexed by a plain \<^verbatim>\<open>char\<close>
  (\<^verbatim>\<open>pattern_mask[needle[i]]\<close>, \<^verbatim>\<open>pattern_mask[haystack[i]]\<close>): a negative index is a
  fault. The kernels are called with \<open>1 \<le> needle_length\<close> and \<open>needle_length\<close> at most
  the width; the shift \<^verbatim>\<open>1 << (needle_length - 1)\<close> is undefined for
  \<open>needle_length = 0\<close>, and a match reported before \<open>needle_length\<close> bytes were read
  would form a pointer in front of the haystack.
\<close>

function bitap_pattern_mask :: "bool \<Rightarrow> c_char list \<Rightarrow> nat \<Rightarrow> nat \<Rightarrow> 'a::len word list \<Rightarrow> fault + 'a word list" where
  "bitap_pattern_mask sg needle needle_length i pattern_mask =
    (if i < needle_length then
       (if length needle \<le> i then Inl OutOfBounds
        else
          (let k = char_to_int sg (needle ! i)
           in if k < 0 \<or> 256 \<le> k then Inl OutOfBounds
              else bitap_pattern_mask sg needle needle_length (i + 1)
                     (pattern_mask[nat k := pattern_mask ! nat k AND NOT (push_bit i 1)])))
     else Inr pattern_mask)"
  by pat_completeness auto
termination
  by (relation "measure (\<lambda>(sg, needle, needle_length, i, pattern_mask). needle_length - i)") auto

function bitap_scan :: "bool \<Rightarrow> 'a::len word list \<Rightarrow> nat \<Rightarrow> c_char list \<Rightarrow> nat \<Rightarrow> 'a word \<Rightarrow> fault + nat option" where
  "bitap_scan sg pattern_mask needle_length haystack i running_match =
    (if i < length haystack then
       (let k = char_to_int sg (haystack ! i)
        in if k < 0 \<or> 256 \<le> k then Inl OutOfBounds
           else
             (let running_match' = push_bit 1 running_match OR pattern_mask ! nat k
              in if running_match' AND push_bit (needle_length - 1) 1 = 0 then
                   (if needle_length \<le> i + 1 then Inr (Some (i + 1 - needle_length))
                    else Inl OutOfBounds)
                 else bitap_scan sg pattern_mask needle_length haystack (i + 1) running_match'))
     else Inr None)"
  by pat_completeness auto
termination
  by (relation "measure (\<lambda>(sg, pattern_mask, needle_length, haystack, i, running_match).
                           length haystack - i)") auto

definition sz_find_bitap :: "'a::len word \<Rightarrow> bool \<Rightarrow> c_char list \<Rightarrow> c_char list \<Rightarrow> nat \<Rightarrow> fault + nat option" where
  "sz_find_bitap running_match sg haystack needle needle_length =
    (if needle_length = 0 then Inl UndefinedShift
     else case bitap_pattern_mask sg needle needle_length 0 (replicate 256 (NOT 0)) of
       Inl f \<Rightarrow> Inl f
     | Inr pattern_mask \<Rightarrow> bitap_scan sg pattern_mask needle_length haystack 0 running_match)"

definition sz_find_under8byte_serial :: "bool \<Rightarrow> c_char list \<Rightarrow> c_char list \<Rightarrow> nat \<Rightarrow> fault + nat option" where
  "sz_find_under8byte_serial = sz_find_bitap (0xFF :: sz_u8_t)"

definition sz_find_under16byte_serial :: "bool \<Rightarrow> c_char list \<Rightarrow> c_char list \<Rightarrow> nat \<Rightarrow> fault + nat option" where
  "sz_find_under16byte_serial = sz_find_bitap (0xFFFF :: sz_u16_t)"

definition sz_find_under64byte_serial :: "bool \<Rightarrow> c_char list \<Rightarrow> c_char list \<Rightarrow> nat \<Rightarrow> fault + nat option" where
  "sz_find_under64byte_serial = sz_find_bitap (NOT 0 :: sz_u64_t)"

subsection \<open>\<^verbatim>\<open>sz_find_serial\<close>\<close>

text \<open>
  The loop for needles longer than 64 bytes: the 64-bit Bitap kernel looks for the first
  64 bytes of the needle in \<^verbatim>\<open>haystack + i\<close>, \<^verbatim>\<open>sz_equal_serial\<close> checks the rest, and
  on a mismatch the scan resumes at \<^verbatim>\<open>found - haystack + prefix_length\<close>
  (\<^verbatim>\<open>i = found - haystack + prefix_length - 1\<close>, then \<^verbatim>\<open>++i\<close>).
\<close>

function find_long :: "bool \<Rightarrow> c_char list \<Rightarrow> c_char list \<Rightarrow> nat \<Rightarrow> fault + nat option" where
  "find_long sg haystack needle i =
    (let prefix_length = 64
     in if int i \<le> int (length haystack) - int (length needle) then
          (case sz_find_under64byte_serial sg (drop i haystack) needle prefix_length of
             Inl f \<Rightarrow> Inl f
           | Inr None \<Rightarrow> Inr None
           | Inr (Some p) \<Rightarrow>
               (let found = i + p
                in case sz_equal_serial haystack (found + prefix_length) needle prefix_length
                          (length needle - prefix_length) of
                     Inl f \<Rightarrow> Inl f
                   | Inr True \<Rightarrow> Inr (Some found)
                   | Inr False \<Rightarrow> find_long sg haystack needle (found + prefix_length - 1 + 1)))
        else Inr None)"
  by pat_completeness auto
termination
  by (relation "measure (\<lambda>(sg, haystack, needle, i). length haystack + 1 - i)") auto

definition sz_find_serial :: "bool \<Rightarrow> nat \<Rightarrow> c_char list \<Rightarrow> c_char list \<Rightarrow> fault + nat option" where
  "sz_find_serial sg addr haystack needle =
    (let haystack_length = length haystack; needle_length = length needle
     in if haystack_length < needle_length then Inr None
        else if needle_length = 0 then Inr None
        else if needle_length = 1 then sz_find_byte_serial sg addr haystack needle
        else if needle_length = 2 then sz_find_2byte_serial haystack needle
        else if needle_length = 3 then sz_find_3byte_serial sg addr haystack needle
        else if needle_length = 4 then sz_find_4byte_serial sg addr haystack needle
        else if needle_length \<in> {5, 6, 7, 8}
          then sz_find_under8byte_serial sg haystack needle needle_length
        else if needle_length \<le> 16 then sz_find_under16byte_serial sg haystack needle needle_length
        else if needle_length \<le> 64 then sz_find_under64byte_serial sg haystack needle needle_length
        else find_long sg haystack needle 0)"

section \<open>Edit distance and alignment\<close>

text \<open>
  The macros \<^verbatim>\<open>sz_min_of_two(x, y) (x < y ? x : y)\<close> and
  \<^verbatim>\<open>sz_min_of_three(x, y, z) sz_min_of_two(x, sz_min_of_two(y, z))\<close>. On words the
  comparison is the unsigned one; the alignment score applies them to
  \<^verbatim>\<open>sz_ssize_t\<close>, where the comparison is signed.
\<close>

definition sz_min_of_two :: "'a::linorder \<Rightarrow> 'a \<Rightarrow> 'a" where
  "sz_min_of_two x y = (if x < y then x else y)"

definition sz_min_of_three :: "'a::linorder \<Rightarrow> 'a \<Rightarrow> 'a \<Rightarrow> 'a" where
  "sz_min_of_three x y z = sz_min_of_two x (sz_min_of_two y z)"

definition sz_min_of_two_signed :: "sz_ssize_t \<Rightarrow> sz_ssize_t \<Rightarrow> sz_ssize_t" where
  "sz_min_of_two_signed x y = (if sint x < sint y then x else y)"

definition sz_min_of_three_signed :: "sz_ssize_t \<Rightarrow> sz_ssize_t \<Rightarrow> sz_ssize_t \<Rightarrow> sz_ssize_t" where
  "sz_min_of_three_signed x y z = sz_min_of_two_signed x (sz_min_of_two_signed y z)"

definition sz_levenshtein_memory_needed :: "sz_size_t \<Rightarrow> sz_size_t \<Rightarrow> sz_size_t" where
  "sz_levenshtein_memory_needed a_length b_length =
    (if a_length < 256 \<and> b_length < 256 then (b_length + b_length + 2) * 1
     else (b_length + b_length + 2) * 8)"

definition sz_alignment_score_memory_needed :: "sz_size_t \<Rightarrow> sz_size_t \<Rightarrow> sz_size_t" where
  "sz_alignment_score_memory_needed a_length b_length = (b_length + b_length + 2) * 8"

subsection \<open>The two-row kernels of \<^verbatim>\<open>sz_levenshtein_serial\<close>\<close>

text \<open>
  \<^verbatim>\<open>_sz_levenshtein_serial_upto256bytes\<close> and \<^verbatim>\<open>_sz_levenshtein_serial_over256bytes\<close>
  are the same text over cells of type \<^verbatim>\<open>sz_u8_t\<close> and \<^verbatim>\<open>sz_size_t\<close>; the model is
  written once over the width of a cell. The two rows \<^verbatim>\<open>previous_distances\<close> and
  \<^verbatim>\<open>current_distances\<close> are disjoint halves of the scratch buffer, each of
  \<open>b_length + 1\<close> cells; they are kept as two lists and the exchange of the two pointers
  exchanges the lists. Cell arithmetic wraps at the width of the cell.

  One step of the inner loop writes \<^verbatim>\<open>current_distances[idx_b + 1]\<close> and updates
  \<^verbatim>\<open>min_distance\<close>.
\<close>

definition lev_cell ::
  "c_char \<Rightarrow> c_char list \<Rightarrow> 'a::len word list \<Rightarrow> nat \<Rightarrow> 'a word list \<times> sz_size_t
    \<Rightarrow> 'a word list \<times> sz_size_t" where
  "lev_cell a_i b previous_distances idx_b st =
    (case st of (current_distances, min_distance) \<Rightarrow>
      (let cost_deletion = previous_distances ! (idx_b + 1) + 1;
           cost_insertion = current_distances ! idx_b + 1;
           cost_substitution = previous_distances ! idx_b + (if a_i \<noteq> b ! idx_b then 1 else 0);
           d = sz_min_of_three cost_deletion cost_insertion cost_substitution
       in (current_distances[idx_b + 1 := d], sz_min_of_two (ucast d) min_distance)))"

text \<open>
  The outer loop over \<^verbatim>\<open>idx_a\<close>, with the early return when no cell of the row is
  below \<^verbatim>\<open>bound\<close>, and the final \<^verbatim>\<open>previous_distances[b_length] < bound ? ... : bound\<close>.
\<close>

fun lev_rows ::
  "c_char list \<Rightarrow> nat \<Rightarrow> c_char list \<Rightarrow> 'a::len word list \<Rightarrow> 'a word list \<Rightarrow> sz_size_t \<Rightarrow> sz_size_t" where
  "lev_rows [] idx_a b previous_distances current_distances bound =
    (if ucast (previous_distances ! length b) < bound
     then ucast (previous_distances ! length b) else bound)"
| "lev_rows (a_i # a_rest) idx_a b previous_distances current_distances bound =
    (case fold (lev_cell a_i b previous_distances) [0..<length b]
            (current_distances[0 := of_nat (idx_a + 1)], bound) of
       (current_distances', min_distance) \<Rightarrow>
         if min_distance \<ge> bound then bound
         else lev_rows a_rest (idx_a + 1) b current_distances' previous_distances bound)"

text \<open>
  The scratch buffer is a list of bytes. With 8-bit cells, cell \<open>k\<close> is byte \<open>k\<close>; with
  \<^verbatim>\<open>sz_size_t\<close> cells, cell \<open>k\<close> is the eight bytes from \<open>8 * k\<close>. A buffer shorter than
  the two rows is a fault. The first row is overwritten with \<open>0 .. b_length\<close>, the second
  row starts with whatever the buffer holds.
\<close>

definition sz_levenshtein_serial_upto256bytes ::
  "c_char list \<Rightarrow> c_char list \<Rightarrow> c_char list \<Rightarrow> sz_size_t \<Rightarrow> fault + sz_size_t" where
  "sz_levenshtein_serial_upto256bytes a b buffer bound =
    (let b_length = length b
     in if length buffer < 2 * (b_length + 1) then Inl OutOfBounds
        else Inr (lev_rows a 0 b
                    (map of_nat [0..<b_length + 1] :: sz_u8_t list)
                    (take (b_length + 1) (drop (b_length + 1) buffer)) bound))"

definition sz_levenshtein_serial_over256bytes ::
  "c_char list \<Rightarrow> c_char list \<Rightarrow> c_char list \<Rightarrow> sz_size_t \<Rightarrow> fault + sz_size_t" where
  "sz_levenshtein_serial_over256bytes a b buffer bound =
    (let b_length = length b
     in if length buffer < 8 * (2 * (b_length + 1)) then Inl OutOfBounds
        else Inr (lev_rows a 0 b
                    (map of_nat [0..<b_length + 1] :: sz_size_t list)
                    (map (\<lambda>k. sz_u64_unaligned_load buffer (8 * (b_length + 1 + k))) [0..<b_length + 1])
                    bound))"

definition sz_levenshtein_serial ::
  "c_char list \<Rightarrow> c_char list \<Rightarrow> c_char list \<Rightarrow> sz_size_t \<Rightarrow> fault + sz_size_t" where
  "sz_levenshtein_serial a b buffer bound =
    (let a_length = length a; b_length = length b
     in if a_length = 0 then Inr (if of_nat b_length \<le> bound then of_nat b_length else bound)
        else if b_length = 0 then Inr (if of_nat a_length \<le> bound then of_nat a_length else bound)
        else if a_length > b_length \<and> of_nat (a_length - b_length) > bound then Inr bound
        else if \<not> a_length > b_length \<and> of_nat (b_length - a_length) > bound then Inr bound
        else if a_length < 256 \<and> b_length < 256
          then sz_levenshtein_serial_upto256bytes a b buffer bound
        else sz_levenshtein_serial_over256bytes a b buffer bound)"

text \<open>
  The reference the edit distance is compared with: the Levenshtein distance of two
  strings as a natural number, by the textbook recursion.
\<close>

fun levenshtein_distance :: "'a list \<Rightarrow> 'a list \<Rightarrow> nat" where
  "levenshtein_distance [] ys = length ys"
| "levenshtein_distance (x # xs) [] = length (x # xs)"
| "levenshtein_distance (x # xs) (y # ys) =
    min (min (levenshtein_distance xs (y # ys) + 1) (levenshtein_distance (x # xs) ys + 1))
        (levenshtein_distance xs ys + (if x = y then 0 else 1))"

subsection \<open>\<^verbatim>\<open>sz_alignment_score_serial\<close>\<close>

text \<open>
  Cells are \<^verbatim>\<open>sz_ssize_t\<close>. \<^verbatim>\<open>gap\<close> and the entries of \<^verbatim>\<open>subs\<close> are
  \<^verbatim>\<open>sz_error_cost_t\<close>, a plain \<^verbatim>\<open>char\<close>, widened to \<^verbatim>\<open>sz_ssize_t\<close>. The row of the
  substitution matrix is \<^verbatim>\<open>subs + a[idx_a] * 256ul\<close> and the entry is
  \<^verbatim>\<open>a_subs[b[idx_b]]\<close>, both indexed by a plain \<^verbatim>\<open>char\<close>.
\<close>

definition align_cell ::
  "bool \<Rightarrow> c_char \<Rightarrow> c_char list \<Rightarrow> c_char \<Rightarrow> c_char list \<Rightarrow> sz_ssize_t list \<Rightarrow> nat
    \<Rightarrow> fault + sz_ssize_t list \<Rightarrow> fault + sz_ssize_t list" where
  "align_cell sg gap subs a_i b previous_distances idx_b st =
    (case st of
       Inl f \<Rightarrow> Inl f
     | Inr current_distances \<Rightarrow>
        (let k = char_to_int sg a_i * 256 + char_to_int sg (b ! idx_b)
         in if k < 0 \<or> int (length subs) \<le> k then Inl OutOfBounds
            else
              (let cost_deletion = previous_distances ! (idx_b + 1) + char_to_u64 sg gap;
                   cost_insertion = current_distances ! idx_b + char_to_u64 sg gap;
                   cost_substitution = previous_distances ! idx_b + char_to_u64 sg (subs ! nat k)
               in Inr (current_distances[idx_b + 1 :=
                         sz_min_of_three_signed cost_deletion cost_insertion cost_substitution]))))"

fun align_rows ::
  "bool \<Rightarrow> c_char \<Rightarrow> c_char list \<Rightarrow> c_char list \<Rightarrow> nat \<Rightarrow> c_char list \<Rightarrow> sz_ssize_t list
    \<Rightarrow> sz_ssize_t list \<Rightarrow> fault + sz_ssize_t" where
  "align_rows sg gap subs [] idx_a b previous_distances current_distances =
    Inr (previous_distances ! length b)"
| "align_rows sg gap subs (a_i # a_rest) idx_a b previous_distances current_distances =
    (case fold (align_cell sg gap subs a_i b previous_distances) [0..<length b]
            (Inr (current_distances[0 := of_nat (idx_a + 1)])) of
       Inl f \<Rightarrow> Inl f
     | Inr current_distances' \<Rightarrow>
         align_rows sg gap subs a_rest (idx_a + 1) b current_distances' previous_distances)"

text \<open>The result is a \<^verbatim>\<open>sz_ssize_t\<close>: a 64-bit word read as two's complement (\<open>sint\<close>).\<close>

definition sz_alignment_score_serial ::
  "bool \<Rightarrow> c_char list \<Rightarrow> c_char list \<Rightarrow> c_char \<Rightarrow> c_char list \<Rightarrow> c_char list \<Rightarrow> fault + sz_ssize_t" where
  "sz_alignment_score_serial sg a b gap subs buffer =
    (let a_length = length a; b_length = length b
     in if a_length = 0 then Inr (of_nat b_length)
        else if b_length = 0 then Inr (of_nat a_length)
        else if length buffer < 8 * (2 * (b_length + 1)) then Inl OutOfBounds
        else align_rows sg gap subs a 0 b
               (map of_nat [0..<b_length + 1])
               (map (\<lambda>k. sz_u64_unaligned_load buffer (8 * (b_length + 1 + k))) [0..<b_length + 1]))"

section \<open>Hash\<close>

definition sz_rotl64 :: "sz_u64_t \<Rightarrow> nat \<Rightarrow> sz_u64_t" where
  "sz_rotl64 x r = push_bit r x OR drop_bit (64 - r) x"

definition hash_c1 :: sz_u64_t where "hash_c1 = 0x87c37b91114253d5"
definition hash_c2 :: sz_u64_t where "hash_c2 = 0x4cf5ad432745937f"

text \<open>
  \<^verbatim>\<open>start\<close> is the list of the bytes readable from the pointer, \<^verbatim>\<open>len\<close> the
  \<^verbatim>\<open>length\<close> argument. The loop over 16-byte blocks returns the advanced pointer, the
  remaining length and the two lanes.
\<close>

function hash_blocks :: "c_char list \<Rightarrow> nat \<Rightarrow> sz_u64_t \<Rightarrow> sz_u64_t \<Rightarrow> c_char list \<times> nat \<times> sz_u64_t \<times> sz_u64_t" where
  "hash_blocks start len h1 h2 =
    (if len \<ge> 16 then
       (let k1 = sz_u64_unaligned_load start 0;
            k2 = sz_u64_unaligned_load start 8;
            k1 = k1 * hash_c1;
            k1 = sz_rotl64 k1 31;
            k1 = k1 * hash_c2;
            h1 = h1 XOR k1;
            h1 = sz_rotl64 h1 27;
            h1 = h1 + h2;
            h1 = h1 * 5 + 0x52dce729;
            k2 = k2 * hash_c2;
            k2 = sz_rotl64 k2 33;
            k2 = k2 * hash_c1;
            h2 = h2 XOR k2;
            h2 = sz_rotl64 h2 31;
            h2 = h2 + h1;
            h2 = h2 * 5 + 0x38495ab5
        in hash_blocks (drop 16 start) (len - 16) h1 h2)
     else (start, len, h1, h2))"
  by pat_completeness auto
termination
  by (relation "measure (\<lambda>(start, len, h1, h2). len)") auto

declare hash_blocks.simps [simp del]

text \<open>
  The \<^verbatim>\<open>switch (length & 15)\<close> falls through from its entry label downwards: label
  \<open>n\<close> in \<open>15 .. 10\<close> stores \<^verbatim>\<open>start[n - 1]\<close> into \<^verbatim>\<open>k2.u8s[n - 9]\<close>, label 9 stores
  \<^verbatim>\<open>start[8]\<close> into \<^verbatim>\<open>k2.u8s[0]\<close> and mixes \<^verbatim>\<open>k2\<close> into \<^verbatim>\<open>h2\<close>; label \<open>n\<close> in
  \<open>8 .. 2\<close> stores \<^verbatim>\<open>start[n - 1]\<close> into \<^verbatim>\<open>k1.u8s[n - 1]\<close>, label 1 stores
  \<^verbatim>\<open>start[0]\<close> into \<^verbatim>\<open>k1.u8s[0]\<close> and mixes \<^verbatim>\<open>k1\<close> into \<^verbatim>\<open>h1\<close>.
\<close>

definition hash_tail :: "c_char list \<Rightarrow> nat \<Rightarrow> sz_u64_t \<Rightarrow> sz_u64_t \<Rightarrow> sz_u64_t \<times> sz_u64_t" where
  "hash_tail start r h1 h2 =
    (let k2 = fold (\<lambda>n k. if n \<le> r then set_u8s k (n - 9) (start ! (n - 1)) else k)
                [15, 14, 13, 12, 11, 10] 0;
         h2 = (if 9 \<le> r then
                 (let k2 = set_u8s k2 0 (start ! 8);
                      k2 = k2 * hash_c2;
                      k2 = sz_rotl64 k2 33;
                      k2 = k2 * hash_c1
                  in h2 XOR k2)
               else h2);
         k1 = fold (\<lambda>n k. if n \<le> r then set_u8s k (n - 1) (start ! (n - 1)) else k)
                [8, 7, 6, 5, 4, 3, 2] 0;
         h1 = (if 1 \<le> r then
                 (let k1 = set_u8s k1 0 (start ! 0);
                      k1 = k1 * hash_c1;
                      k1 = sz_rotl64 k1 31;
                      k1 = k1 * hash_c2
                  in h1 XOR k1)
               else h1)
     in (h1, h2))"

definition sz_hash_serial :: "c_char list \<Rightarrow> nat \<Rightarrow> fault + sz_u64_t" where
  "sz_hash_serial start len =
    (if length start < len then Inl OutOfBounds
     else
       (case hash_blocks start len (of_nat len) (of_nat len) of
          (start', len', h1, h2) \<Rightarrow>
            (case hash_tail start' (len' mod 16) h1 h2 of (h1', h2') \<Rightarrow> Inr (h1' + h2'))))"

section \<open>Character transforms\<close>

text \<open>The two 256-entry tables, as they stand in the source: sixteen rows of sixteen entries.\<close>

definition lowered :: "sz_u8_t list" where
  "lowered = concat
    [[0, 1, 2, 3, 4, 5, 6, 7, 8, 9, 10, 11, 12, 13, 14, 15],
     [16, 17, 18, 19, 20, 21, 22, 23, 24, 25, 26, 27, 28, 29, 30, 31],
     [32, 33, 34, 35, 36, 37, 38, 39, 40, 41, 42, 43, 44, 45, 46, 47],
     [48, 49, 50, 51, 52, 53, 54, 55, 56, 57, 58, 59, 60, 61, 62, 63],
     [64, 97, 98, 99, 100, 101, 102, 103, 104, 105, 106, 107, 108, 109, 110, 111],
     [112, 113, 114, 115, 116, 117, 118, 119, 120, 121, 122, 91, 92, 93, 94, 95],
     [96, 97, 98, 99, 100, 101, 102, 103, 104, 105, 106, 107, 108, 109, 110, 111],
     [112, 113, 114, 115, 116, 117, 118, 119, 120, 121, 122, 123, 124, 125, 126, 127],
     [128, 129, 130, 131, 132, 133, 134, 135, 136, 137, 138, 139, 140, 141, 142, 143],
     [144, 145, 146, 147, 148, 149, 150, 151, 152, 153, 154, 155, 156, 157, 158, 159],
     [160, 161, 162, 163, 164, 165, 166, 167, 168, 169, 170, 171, 172, 173, 174, 175],
     [176, 177, 178, 179, 180, 181, 182, 183, 184, 185, 186, 187, 188, 189, 190, 191],
     [224, 225, 226, 227, 228, 229, 230, 231, 232, 233, 234, 235, 236, 237, 238, 239],
     [240, 241, 242, 243, 244, 245, 246, 215, 248, 249, 250, 251, 252, 253, 254, 223],
     [224, 225, 226, 227, 228, 229, 230, 231, 232, 233, 234, 235, 236, 237, 238, 239],
     [240, 241, 242, 243, 244, 245, 246, 247, 248, 249, 250, 251, 252, 253, 254, 255]]"

definition upped :: "sz_u8_t list" where
  "upped = concat
    [[0, 1, 2, 3, 4, 5, 6, 7, 8, 9, 10, 11, 12, 13, 14, 15],
     [16, 17, 18, 19, 20, 21, 22, 23, 24, 25, 26, 27, 28, 29, 30, 31],
     [32, 33, 34, 35, 36, 37, 38, 39, 40, 41, 42, 43, 44, 45, 46, 47],
     [48, 49, 50, 51, 52, 53, 54, 55, 56, 57, 58, 59, 60, 61, 62, 63],
     [64, 97, 98, 99, 100, 101, 102, 103, 104, 105, 106, 107, 108, 109, 110, 111],
     [112, 113, 114, 115, 116, 117, 118, 119, 120, 121, 122, 91, 92, 93, 94, 95],
     [96, 65, 66, 67, 68, 69, 70, 71, 72, 73, 74, 75, 76, 77, 78, 79],
     [80, 81, 82, 83, 84, 85, 86, 87, 88, 89, 90, 123, 124, 125, 126, 127],
     [128, 129, 130, 131, 132, 133, 134, 135, 136, 137, 138, 139, 140, 141, 142, 143],
     [144, 145, 146, 147, 148, 149, 150, 151, 152, 153, 154, 155, 156, 157, 158, 159],
     [160, 161, 162, 163, 164, 165, 166, 167, 168, 169, 170, 171, 172, 173, 174, 175],
     [176, 177, 178, 179, 180, 181, 182, 183, 184, 185, 186, 187, 188, 189, 190, 191],
     [224, 225, 226, 227, 228, 229, 230, 231, 232, 233, 234, 235, 236, 237, 238, 239],
     [240, 241, 242, 243, 244, 245, 246, 215, 248, 249, 250, 251, 252, 253, 254, 223],
     [224, 225, 226, 227, 228, 229, 230, 231, 232, 233, 234, 235, 236, 237, 238, 239],
     [240, 241, 242, 243, 244, 245, 246, 247, 248, 249, 250, 251, 252, 253, 254, 255]]"

text \<open>
  The table index is \<^verbatim>\<open>(int)c\<close> for a plain \<^verbatim>\<open>char c\<close>; the entry is read back as a
  \<^verbatim>\<open>char\<close>. An index outside \<open>0 .. 255\<close> is a read outside the table.
\<close>

definition table_index :: "bool \<Rightarrow> c_char \<Rightarrow> int" where
  "table_index sg c = char_to_int sg c"

definition sz_char_tolower :: "bool \<Rightarrow> c_char \<Rightarrow> fault + c_char" where
  "sz_char_tolower sg c =
    (let i = table_index sg c
     in if 0 \<le> i \<and> i < int (length lowered) then Inr (lowered ! nat i) else Inl OutOfBounds)"

definition sz_char_toupper :: "bool \<Rightarrow> c_char \<Rightarrow> fault + c_char" where
  "sz_char_toupper sg c =
    (let i = table_index sg c
     in if 0 \<le> i \<and> i < int (length upped) then Inr (upped ! nat i) else Inl OutOfBounds)"

text \<open>
  The string transforms write \<^verbatim>\<open>result[k]\<close> after reading \<^verbatim>\<open>text[k]\<close>, in increasing
  order of \<open>k\<close>; the model returns the bytes written.
\<close>

fun sz_tolower_serial :: "bool \<Rightarrow> c_char list \<Rightarrow> fault + c_char list" where
  "sz_tolower_serial sg [] = Inr []"
| "sz_tolower_serial sg (c # text) =
    (case sz_char_tolower sg c of
       Inl f \<Rightarrow> Inl f
     | Inr r \<Rightarrow> (case sz_tolower_serial sg text of Inl f \<Rightarrow> Inl f | Inr rs \<Rightarrow> Inr (r # rs)))"

fun sz_toupper_serial :: "bool \<Rightarrow> c_char list \<Rightarrow> fault + c_char list" where
  "sz_toupper_serial sg [] = Inr []"
| "sz_toupper_serial sg (c # text) =
    (case sz_char_toupper sg c of
       Inl f \<Rightarrow> Inl f
     | Inr r \<Rightarrow> (case sz_toupper_serial sg text of Inl f \<Rightarrow> Inl f | Inr rs \<Rightarrow> Inr (r # rs)))"

section \<open>Notions the properties are stated with\<close>

text \<open>
  \<open>occurs_at h n p\<close>: the \<open>length n\<close> bytes of \<open>h\<close> that start at position \<open>p\<close> exist
  and are the bytes of \<open>n\<close>.
\<close>

definition occurs_at :: "c_char list \<Rightarrow> c_char list \<Rightarrow> nat \<Rightarrow> bool" where
  "occurs_at h n p = (p + length n \<le> length h \<and> take (length n) (drop p h) = n)"

text \<open>
  The bound that stands for "no bound": the largest \<^verbatim>\<open>sz_size_t\<close>.
\<close>

definition unbounded :: sz_size_t where
  "unbounded = - 1"

text \<open>
  The table that the two-row kernels fill, with the wrap-around of the cell type:
  \<open>lev_w (rev (take i a)) (rev (take j b))\<close> is the cell in row \<open>i\<close> and column \<open>j\<close>. The
  strings are consumed from their last byte, so that a prefix grows by one byte at the
  head of the list.
\<close>

fun lev_w :: "c_char list \<Rightarrow> c_char list \<Rightarrow> 'a::len word" where
  "lev_w [] ys = of_nat (length ys)"
| "lev_w (x # xs) [] = of_nat (length (x # xs))"
| "lev_w (x # xs) (y # ys) =
    sz_min_of_three (lev_w xs (y # ys) + 1) (lev_w (x # xs) ys + 1)
      (lev_w xs ys + (if x \<noteq> y then 1 else 0))"

text \<open>What \<^verbatim>\<open>sz_levenshtein_serial\<close> returns under the bound \<open>unbounded\<close>.\<close>

definition lev_value :: "c_char list \<Rightarrow> c_char list \<Rightarrow> sz_size_t" where
  "lev_value a b =
    (if a = [] then of_nat (length b)
     else if b = [] then of_nat (length a)
     else if length a < 256 \<and> length b < 256 then ucast (lev_w (rev a) (rev b) :: sz_u8_t)
     else lev_w (rev a) (rev b))"

text \<open>
  The order the byte comparison is compared with: lexicographic on unsigned bytes, a
  proper prefix being less.
\<close>

fun order_spec :: "c_char list \<Rightarrow> c_char list \<Rightarrow> sz_ordering_t" where
  "order_spec [] [] = sz_equal_k"
| "order_spec [] (y # ys) = sz_less_k"
| "order_spec (x # xs) [] = sz_greater_k"
| "order_spec (x # xs) (y # ys) =
    (if x = y then order_spec xs ys else if x < y then sz_less_k else sz_greater_k)"

text \<open>
  The number that a list of bytes stands for, least significant byte first
  (\<open>le_nat\<close>) and most significant byte first (\<open>be_nat\<close>).
\<close>

fun le_nat :: "c_char list \<Rightarrow> nat" where
  "le_nat [] = 0"
| "le_nat (x # xs) = unat x + 256 * le_nat xs"

fun be_nat :: "c_char list \<Rightarrow> nat" where
  "be_nat [] = 0"
| "be_nat (x # xs) = unat x * 256 ^ length xs + be_nat xs"

text \<open>
  Edit scripts: \<open>edits n xs ys\<close> holds when \<open>n\<close> deletions, insertions and
  substitutions of single elements turn \<open>xs\<close> into \<open>ys\<close>. The Levenshtein distance is
  the least such \<open>n\<close>.
\<close>

inductive edits :: "nat \<Rightarrow> 'a list \<Rightarrow> 'a list \<Rightarrow> bool" where
  edits_Nil: "edits 0 [] []"
| edits_del: "edits n xs ys \<Longrightarrow> edits (Suc n) (x # xs) ys"
| edits_ins: "edits n xs ys \<Longrightarrow> edits (Suc n) xs (y # ys)"
| edits_sub: "edits n xs ys \<Longrightarrow> edits (n + (if x = y then 0 else 1)) (x # xs) (y # ys)"

section \<open>Properties\<close>

subsection \<open>Character transforms\<close>

lemma table_index_ascii: "c < 0x80 \<Longrightarrow> table_index sg c = uint c"
proof -
  assume "c < 0x80"
  then have "uint c < 128" by (simp add: word_less_def)
  moreover have "- 128 \<le> uint c"
    by (rule order_trans [of _ 0]) simp_all
  ultimately have "sint c = uint c"
    by (simp add: sint_uint signed_take_bit_int_eq_self_iff)
  then show ?thesis by (simp add: table_index_def char_to_int_def)
qed

lemma length_case_tables: "length lowered = 256 \<and> length upped = 256"
  by (simp add: lowered_def upped_def)

lemma case_tables_ascii:
  assumes "c < 0x80"
  shows "sz_char_tolower sg c = Inr (lowered ! unat c)"
    and "sz_char_toupper sg c = Inr (upped ! unat c)"
proof -
  have "uint c < 256" using uint_lt2p [of c] by simp
  moreover have "nat (uint c) = unat c" by simp
  ultimately show "sz_char_tolower sg c = Inr (lowered ! unat c)"
    and "sz_char_toupper sg c = Inr (upped ! unat c)"
    using table_index_ascii [OF assms, of sg] length_case_tables
    by (simp_all add: sz_char_tolower_def sz_char_toupper_def Let_def)
qed

lemma case_tables_on_letters:
  "list_all (\<lambda>i. lowered ! i = of_nat (i + 32) \<and> upped ! i = of_nat (i + 32)) [65..<91]
   \<and> list_all (\<lambda>i. lowered ! i = of_nat i \<and> upped ! i = of_nat (i - 32)) [97..<123]"
  by code_simp

text \<open>
  What the tables do on the ASCII letters, on every platform: \<open>to_lower\<close> maps
  \<open>'A'..'Z'\<close> to \<open>'a'..'z'\<close> and keeps \<open>'a'..'z'\<close>; \<open>to_upper\<close> maps \<open>'a'..'z'\<close> to
  \<open>'A'..'Z'\<close>, and lowers every byte of \<open>'A'..'Z'\<close> too.
\<close>

lemma case_transforms_on_capitals:
  assumes "0x41 \<le> c" and "c \<le> 0x5A"
  shows "sz_char_tolower sg c = Inr (c + 32)" and "sz_char_toupper sg c = Inr (c + 32)"
proof -
  have "unat c \<in> set [65..<91]"
    using assms by (simp only: set_upt atLeastLessThan_iff) (simp add: word_le_nat_alt)
  then have "lowered ! unat c = of_nat (unat c + 32) \<and> upped ! unat c = of_nat (unat c + 32)"
    using case_tables_on_letters by (simp only: list_all_iff)
  moreover have "c < 0x80"
    using assms by (simp add: word_less_nat_alt word_le_nat_alt)
  ultimately show "sz_char_tolower sg c = Inr (c + 32)" and "sz_char_toupper sg c = Inr (c + 32)"
    by (simp_all add: case_tables_ascii)
qed

lemma case_transforms_on_small_letters:
  assumes "0x61 \<le> c" and "c \<le> 0x7A"
  shows "sz_char_tolower sg c = Inr c" and "sz_char_toupper sg c = Inr (c - 32)"
proof -
  have u: "97 \<le> unat c"
    using assms by (simp add: word_le_nat_alt)
  have "unat c \<in> set [97..<123]"
    using assms by (simp only: set_upt atLeastLessThan_iff) (simp add: word_le_nat_alt)
  then have "lowered ! unat c = of_nat (unat c) \<and> upped ! unat c = of_nat (unat c - 32)"
    using case_tables_on_letters by (simp only: list_all_iff)
  moreover have "c < 0x80"
    using assms by (simp add: word_less_nat_alt word_le_nat_alt)
  moreover have "(of_nat (unat c - 32) :: c_char) = c - 32"
    using u by (simp add: of_nat_diff)
  ultimately show "sz_char_tolower sg c = Inr c" and "sz_char_toupper sg c = Inr (c - 32)"
    by (simp_all add: case_tables_ascii)
qed

text \<open>
  Claim C9. The case transforms fold exactly the ASCII letters: \<open>to_upper\<close> maps each
  byte in \<open>'a'..'z'\<close> to the corresponding byte in \<open>'A'..'Z'\<close> and leaves each byte in
  \<open>'A'..'Z'\<close> unchanged, and \<open>to_lower\<close> does the converse.

  The table \<^verbatim>\<open>upped\<close> repeats rows 64 .. 95 of \<^verbatim>\<open>lowered\<close>: on every platform
  \<^verbatim>\<open>sz_char_toupper\<close> sends \<open>'A'\<close> (65) to \<open>'a'\<close> (97) instead of leaving it
  unchanged, and so does \<^verbatim>\<open>sz_toupper_serial\<close> on the one-byte string \<open>"A"\<close>.
\<close>

theorem sz_char_toupper_lowers_capital_A:
  "\<forall>sg. sz_char_toupper sg 0x41 = Inr 0x61 \<and> sz_toupper_serial sg [0x41] = Inr [0x61]"
  by (simp add: sz_char_toupper_def table_index_def char_to_int_def upped_def)

text \<open>
  Claim C10. For every input byte 0 .. 255 the index with which \<open>to_lower\<close> and
  \<open>to_upper\<close> read their 256-entry tables lies in 0 .. 255; the conversion of the
  character to the index never gives a negative index.

  Where plain \<^verbatim>\<open>char\<close> is signed the index \<^verbatim>\<open>(int)c\<close> of the byte \<open>0x80\<close> is \<open>-128\<close>, and
  both transforms read in front of their table.
\<close>

theorem table_index_negative_signed_char:
  "table_index True 0x80 = - 128
   \<and> sz_char_tolower True 0x80 = Inl OutOfBounds
   \<and> sz_char_toupper True 0x80 = Inl OutOfBounds
   \<and> sz_tolower_serial True [0x80] = Inl OutOfBounds"
  by (simp add: sz_char_tolower_def sz_char_toupper_def table_index_def char_to_int_def)

text \<open>Where plain \<^verbatim>\<open>char\<close> is unsigned the index is within the table for every byte.\<close>

lemma table_index_unsigned_char: "0 \<le> table_index False c \<and> table_index False c < 256"
  using uint_lt2p [of c] by (simp add: table_index_def char_to_int_def)

subsection \<open>Byte order\<close>

text \<open>
  Claim C2. \<open>order(a, la, b, lb)\<close> compares the first \<open>min(la, lb)\<close> bytes as unsigned
  8-bit values and returns Less or Greater according to the first differing byte; on an
  equal common prefix the shorter string is Less, and equal strings are Equal.

  Where plain \<^verbatim>\<open>char\<close> is signed, the byte loop of \<^verbatim>\<open>sz_order_serial\<close> compares
  \<^verbatim>\<open>*a < *b\<close> as signed values: the one-byte strings \<open>0x80\<close> and \<open>0x01\<close> come out as
  Less, although \<open>0x80 > 0x01\<close> as unsigned bytes. The word loop of the same function
  compares unsigned: the same two bytes followed by seven zero bytes come out as Greater.
\<close>

theorem sz_order_serial_signed_byte_loop:
  "sz_order_serial True [0x80] [0x01] = sz_less_k
   \<and> (0x01 :: c_char) < 0x80
   \<and> sz_order_serial True [0x80, 0, 0, 0, 0, 0, 0, 0] [0x01, 0, 0, 0, 0, 0, 0, 0] = sz_greater_k"
  by code_simp

text \<open>
  Where plain \<^verbatim>\<open>char\<close> is unsigned, and everywhere on strings of bytes below \<open>0x80\<close>,
  \<^verbatim>\<open>sz_order_serial\<close> is the lexicographic order on unsigned bytes. The word loop
  compares eight bytes as one big-endian number, which orders them as the bytes do.
\<close>

lemma le_nat_bound: "le_nat xs < 256 ^ length xs"
proof (induction xs)
  case Nil
  show ?case by simp
next
  case (Cons x xs)
  have "unat x < 256" using unsigned_less [of x, where ?'a = nat] by simp
  then have "unat x + 256 * le_nat xs < 256 * (1 + le_nat xs)" by simp
  also have "\<dots> \<le> 256 * 256 ^ length xs"
    using Cons.IH by (intro mult_le_mono2) simp
  finally show ?case by simp
qed

lemma unat_le_word:
  "length xs \<le> 8 \<Longrightarrow> unat (le_word xs :: sz_u64_t) = le_nat xs"
proof (induction xs)
  case Nil
  show ?case by simp
next
  case (Cons x xs)
  let ?w = "le_word xs :: sz_u64_t"
  have w: "unat ?w = le_nat xs" using Cons by simp
  have "le_nat xs < 256 ^ length xs" by (rule le_nat_bound)
  also have "(256 :: nat) ^ length xs \<le> 256 ^ 7"
    using Cons.prems by (intro power_increasing) simp_all
  finally have small: "unat ?w < 2 ^ 56" using w by simp
  have xb: "unat x < 256" using unsigned_less [of x, where ?'a = nat] by simp
  have x: "unat (ucast x :: sz_u64_t) = unat x"
    using xb by (simp add: unsigned_ucast_eq take_bit_nat_eq_self)
  have p: "unat (push_bit 8 ?w) = 256 * unat ?w"
  proof -
    have "unat ?w * unat (256 :: sz_u64_t) < 2 ^ LENGTH(64)"
      using small by simp
    then have "unat (?w * 256) = unat ?w * unat (256 :: sz_u64_t)"
      by (simp only: unat_mult_lem)
    then show ?thesis by (simp add: push_bit_eq_mult)
  qed
  have disj: "(ucast x :: sz_u64_t) AND push_bit 8 ?w = 0"
    by (rule bit_word_eqI) (auto simp add: bit_simps dest: bit_imp_le_length)
  have "unat (ucast x :: sz_u64_t) + unat (push_bit 8 ?w) < 2 ^ LENGTH(64)"
    using small xb by (simp add: x p)
  then have "unat (ucast x + push_bit 8 ?w :: sz_u64_t) = unat (ucast x :: sz_u64_t) + unat (push_bit 8 ?w)"
    by (simp only: unat_add_lem)
  then show ?case
    by (simp add: disjunctive_add_eq_or [OF disj, symmetric] x p w)
qed


lemma bit_le_word:
  "bit (le_word xs :: 'a::len word) m \<longleftrightarrow>
     m < LENGTH('a) \<and> m div 8 < length xs \<and> bit (xs ! (m div 8)) (m mod 8)"
proof (induction xs arbitrary: m)
  case Nil
  show ?case by simp
next
  case (Cons x xs)
  show ?case
  proof (cases "m < 8")
    case True
    then show ?thesis
      by (auto simp add: bit_simps dest: bit_imp_le_length)
  next
    case False
    then have m: "8 \<le> m" by simp
    then have d: "m div 8 = Suc ((m - 8) div 8)" and r: "m mod 8 = (m - 8) mod 8"
      by (simp_all add: le_div_geq le_mod_geq)
    show ?thesis
      using m Cons.IH [of "m - 8"]
      by (auto simp add: bit_simps d r dest: bit_imp_le_length)
  qed
qed

lemma u8s_le_word:
  assumes "length xs = 8"
  shows "u8s (le_word xs) = xs"
proof (rule nth_equalityI)
  show "length (u8s (le_word xs)) = length xs"
    using assms by (simp add: u8s_def)
next
  fix k assume "k < length (u8s (le_word xs))"
  then have k: "k < 8" by (simp add: u8s_def)
  have "(ucast (drop_bit (8 * k) (le_word xs :: sz_u64_t)) :: c_char) = xs ! k"
  proof (rule bit_word_eqI)
    fix n assume n: "n < LENGTH(8)"
    then have "(8 * k + n) div 8 = k" "(8 * k + n) mod 8 = n" "8 * k + n < 64"
      using k by simp_all
    then show "bit (ucast (drop_bit (8 * k) (le_word xs :: sz_u64_t)) :: c_char) n = bit (xs ! k) n"
      using n k assms by (simp add: bit_simps bit_le_word)
  qed
  then show "u8s (le_word xs) ! k = xs ! k"
    using k by (simp add: u8s_def del: upt_Suc)
qed

lemma le_nat_append: "le_nat (xs @ [x]) = le_nat xs + 256 ^ length xs * unat x"
  by (induction xs) (simp_all add: algebra_simps)

lemma le_nat_rev: "le_nat (rev xs) = be_nat xs"
  by (induction xs) (simp_all add: le_nat_append)

lemma unat_byte_reverse_load:
  assumes "length xs = 8"
  shows "unat (sz_u64_byte_reverse (le_word xs)) = be_nat xs"
  using assms by (simp add: sz_u64_byte_reverse_def u8s_le_word unat_le_word le_nat_rev)

lemma be_nat_bound: "be_nat xs < 256 ^ length xs"
  using le_nat_bound [of "rev xs"] by (simp add: le_nat_rev)

lemma be_nat_order:
  assumes "length xs = length ys"
  shows "(be_nat xs = be_nat ys \<longleftrightarrow> xs = ys)
         \<and> (be_nat xs < be_nat ys \<longleftrightarrow> order_spec xs ys = sz_less_k)
         \<and> (order_spec xs ys = sz_equal_k \<longleftrightarrow> xs = ys)"
  using assms
proof (induction xs ys rule: list_induct2)
  case Nil
  show ?case by simp
next
  case (Cons x xs y ys)
  let ?P = "(256 :: nat) ^ length ys"
  have bx: "be_nat xs < ?P" using be_nat_bound [of xs] Cons.hyps by simp
  have bys: "be_nat ys < ?P" using be_nat_bound [of ys] by simp
  consider "x = y" | "x < y" | "y < x" by (meson linorder_neqE)
  then show ?case
  proof cases
    case 1
    then show ?thesis using Cons by simp
  next
    case 2
    then have "unat x + 1 \<le> unat y" by (simp add: word_less_nat_alt)
    then have "(unat x + 1) * ?P \<le> unat y * ?P" by (rule mult_le_mono1)
    then have "unat x * ?P + be_nat xs < unat y * ?P + be_nat ys"
      using bx by (simp add: algebra_simps)
    moreover have "x \<noteq> y" using 2 by simp
    ultimately show ?thesis using 2 Cons.hyps by simp
  next
    case 3
    then have "unat y + 1 \<le> unat x" by (simp add: word_less_nat_alt)
    then have "(unat y + 1) * ?P \<le> unat x * ?P" by (rule mult_le_mono1)
    then have "unat y * ?P + be_nat ys < unat x * ?P + be_nat xs"
      using bys by (simp add: algebra_simps)
    moreover have "x \<noteq> y" "\<not> x < y" using 3 by simp_all
    ultimately show ?thesis using Cons.hyps by simp
  qed
qed


lemma order_spec_append:
  "length xs = length ys \<Longrightarrow>
     order_spec (xs @ r1) (ys @ r2) = (if xs = ys then order_spec r1 r2 else order_spec xs ys)"
  by (induction xs ys rule: list_induct2) auto

lemma order_spec_Nil: "order_spec [] ys = (if ys = [] then sz_equal_k else sz_less_k)"
  "order_spec xs [] = (if xs = [] then sz_equal_k else sz_greater_k)"
  by (cases ys; simp) (cases xs; simp)

lemma order_chunk:
  assumes "length xs = 8" and "length ys = 8"
  shows "sz_u64_byte_reverse (le_word xs) = sz_u64_byte_reverse (le_word ys) \<longleftrightarrow> xs = ys"
    and "xs \<noteq> ys \<Longrightarrow>
           ordering_lookup (sz_u64_byte_reverse (le_word xs) < sz_u64_byte_reverse (le_word ys))
             = order_spec xs ys"
proof -
  have l: "length xs = length ys" using assms by simp
  note o = be_nat_order [OF l]
  have u: "unat (sz_u64_byte_reverse (le_word xs)) = be_nat xs"
          "unat (sz_u64_byte_reverse (le_word ys)) = be_nat ys"
    using assms by (simp_all add: unat_byte_reverse_load)
  show "sz_u64_byte_reverse (le_word xs) = sz_u64_byte_reverse (le_word ys) \<longleftrightarrow> xs = ys"
    using o u by (metis)
  show "ordering_lookup (sz_u64_byte_reverse (le_word xs) < sz_u64_byte_reverse (le_word ys))
             = order_spec xs ys" if "xs \<noteq> ys"
  proof (cases "order_spec xs ys")
    case sz_less_k
    then show ?thesis using o u by (simp add: ordering_lookup_def word_less_nat_alt)
  next
    case sz_equal_k
    then show ?thesis using o that by simp
  next
    case sz_greater_k
    then show ?thesis using o u by (simp add: ordering_lookup_def word_less_nat_alt)
  qed
qed

lemma order_words_spec:
  assumes "m \<le> length a" and "m \<le> length b"
  shows "case order_words a b m i of
           Return r \<Rightarrow> r = order_spec (drop i a) (drop i b)
         | Fall j \<Rightarrow> i \<le> j \<and> (i \<le> m \<longrightarrow> j \<le> m)
                      \<and> order_spec (drop i a) (drop i b) = order_spec (drop j a) (drop j b)"
  using assms
proof (induction a b m i rule: order_words.induct)
  case (1 a b m i)
  show ?case
  proof (cases "i + 8 \<le> m")
    case False
    then show ?thesis by (simp add: order_words.simps [of a b m i])
  next
    case True
    let ?xs = "take 8 (drop i a)" and ?ys = "take 8 (drop i b)"
    have len: "length ?xs = 8" "length ?ys = 8"
      using True "1.prems" by simp_all
    have dd: "drop (i + 8) zs = drop 8 (drop i zs)" for zs :: "c_char list"
      by (simp add: add.commute)
    have da: "drop i a = ?xs @ drop (i + 8) a" and db: "drop i b = ?ys @ drop (i + 8) b"
      by (simp_all only: dd append_take_drop_id)
    have l8: "length ?xs = length ?ys"
      using len by simp
    have spec: "order_spec (drop i a) (drop i b)
                  = (if ?xs = ?ys then order_spec (drop (i + 8) a) (drop (i + 8) b)
                     else order_spec ?xs ?ys)"
      using order_spec_append [OF l8, of "drop (i + 8) a" "drop (i + 8) b"]
      by (simp only: da [symmetric] db [symmetric])
    show ?thesis
    proof (cases "?xs = ?ys")
      case same: True
      then have eq: "sz_u64_byte_reverse (sz_u64_unaligned_load a i)
                       = sz_u64_byte_reverse (sz_u64_unaligned_load b i)"
        by (simp add: sz_u64_unaligned_load_def)
      have IH: "case order_words a b m (i + 8) of
           Return r \<Rightarrow> r = order_spec (drop (i + 8) a) (drop (i + 8) b)
         | Fall j \<Rightarrow> i + 8 \<le> j \<and> (i + 8 \<le> m \<longrightarrow> j \<le> m)
                      \<and> order_spec (drop (i + 8) a) (drop (i + 8) b)
                          = order_spec (drop j a) (drop j b)"
        using True eq "1.prems" by (intro "1.IH") simp_all
      show ?thesis
        using True eq IH spec same
        by (simp add: order_words.simps [of a b m i] split: flow.splits)
    next
      case diff: False
      then have ne: "sz_u64_byte_reverse (sz_u64_unaligned_load a i)
                       \<noteq> sz_u64_byte_reverse (sz_u64_unaligned_load b i)"
        using order_chunk(1) [OF len] by (simp add: sz_u64_unaligned_load_def)
      have "ordering_lookup (sz_u64_byte_reverse (sz_u64_unaligned_load a i)
                               < sz_u64_byte_reverse (sz_u64_unaligned_load b i))
              = order_spec ?xs ?ys"
        using order_chunk(2) [OF len diff] by (simp add: sz_u64_unaligned_load_def)
      then show ?thesis
        using True ne spec diff
        by (simp add: order_words.simps [of a b m i] Let_def)
    qed
  qed
qed

lemma char_to_int_less:
  assumes "sg \<longrightarrow> x < 0x80 \<and> y < 0x80"
  shows "char_to_int sg x < char_to_int sg y \<longleftrightarrow> x < y"
proof (cases sg)
  case False
  then show ?thesis by (simp add: char_to_int_def word_less_def)
next
  case True
  have s: "sint c = uint c" if "c < 0x80" for c :: c_char
  proof -
    from that have "uint c < 128" by (simp add: word_less_def)
    moreover have "- 128 \<le> uint c"
      by (rule order_trans [of _ 0]) simp_all
    ultimately show ?thesis
      by (simp add: sint_uint signed_take_bit_int_eq_self_iff)
  qed
  show ?thesis
    using True assms by (simp add: char_to_int_def s word_less_def)
qed

lemma order_bytes_spec:
  assumes "m = min (length a) (length b)" and "i \<le> m"
      and "sg \<longrightarrow> (\<forall>c \<in> set a \<union> set b. c < 0x80)"
  shows "(case order_bytes sg a b m i of
            Some r \<Rightarrow> r
          | None \<Rightarrow> if length a \<noteq> length b then ordering_lookup (length a < length b)
                    else sz_equal_k)
         = order_spec (drop i a) (drop i b)"
  using assms
proof (induction sg a b m i rule: order_bytes.induct)
  case (1 sg a b m i)
  show ?case
  proof (cases "i < m")
    case True
    then have ia: "i < length a" and ib: "i < length b"
      using "1.prems" by simp_all
    have da: "drop i a = a ! i # drop (i + 1) a" and db: "drop i b = b ! i # drop (i + 1) b"
      using ia ib by (simp_all add: Cons_nth_drop_Suc)
    have cmp: "char_to_int sg (a ! i) < char_to_int sg (b ! i) \<longleftrightarrow> a ! i < b ! i"
      using "1.prems"(3) ia ib by (intro char_to_int_less) auto
    show ?thesis
    proof (cases "a ! i = b ! i")
      case same: True
      have "(case order_bytes sg a b m (i + 1) of
            Some r \<Rightarrow> r
          | None \<Rightarrow> if length a \<noteq> length b then ordering_lookup (length a < length b)
                    else sz_equal_k)
         = order_spec (drop (i + 1) a) (drop (i + 1) b)"
        using True same "1.prems" by (intro "1.IH") simp_all
      then show ?thesis
        using True same by (subst da, subst db) (simp add: order_bytes.simps [of sg a b m i])
    next
      case False
      then show ?thesis
        using True cmp
        by (subst da, subst db) (simp add: order_bytes.simps [of sg a b m i] ordering_lookup_def)
    qed
  next
    case False
    with "1.prems"(2) have "i = m" by simp
    with "1.prems"(1) have i: "i = min (length a) (length b)" by simp
    have "order_spec (drop i a) (drop i b)
            = (if length a \<noteq> length b then ordering_lookup (length a < length b) else sz_equal_k)"
    proof (cases "length a \<le> length b")
      case True
      then show ?thesis using i by (auto simp add: order_spec_Nil ordering_lookup_def min_def)
    next
      case False
      then show ?thesis using i by (auto simp add: order_spec_Nil ordering_lookup_def min_def)
    qed
    then show ?thesis
      using False by (simp add: order_bytes.simps [of sg a b m i])
  qed
qed

lemma sz_order_serial_unsigned_bytes:
  assumes "sg \<longrightarrow> (\<forall>c \<in> set a \<union> set b. c < 0x80)"
  shows "sz_order_serial sg a b = order_spec a b"
proof -
  let ?m = "if length a < length b then length a else length b"
  have m: "?m = min (length a) (length b)" by (simp add: min_def)
  have w: "case order_words a b ?m 0 of
           Return r \<Rightarrow> r = order_spec (drop 0 a) (drop 0 b)
         | Fall j \<Rightarrow> 0 \<le> j \<and> (0 \<le> ?m \<longrightarrow> j \<le> ?m)
                      \<and> order_spec (drop 0 a) (drop 0 b) = order_spec (drop j a) (drop j b)"
    by (rule order_words_spec) simp_all
  show ?thesis
  proof (cases "order_words a b ?m 0")
    case (Return r)
    then show ?thesis using w by (simp add: sz_order_serial_def)
  next
    case (Fall j)
    then have j: "j \<le> ?m" and e: "order_spec a b = order_spec (drop j a) (drop j b)"
      using w by simp_all
    have "(case order_bytes sg a b ?m j of
            Some r \<Rightarrow> r
          | None \<Rightarrow> if length a \<noteq> length b then ordering_lookup (length a < length b)
                    else sz_equal_k)
         = order_spec (drop j a) (drop j b)"
      using m j assms by (intro order_bytes_spec) auto
    then show ?thesis
      using Fall e by (simp add: sz_order_serial_def Let_def)
  qed
qed

subsection \<open>Byte search\<close>

text \<open>
  Claim C5. \<open>rfind_byte(h, |h|, c)\<close> returns the largest position \<open>p < |h|\<close> with
  \<open>h[p] = c\<close>, and the not-found sentinel when \<open>c\<close> does not occur in \<open>h\<close>.

  A haystack of 16 bytes at an address that is a multiple of 8, holding the byte 1 at
  position 8 only: the head loop of \<^verbatim>\<open>sz_rfind_byte_serial\<close> checks positions 15 .. 9, the
  word loop loads positions 8 .. 15 and returns \<^verbatim>\<open>text - 8 + sz_clz64(...) / 8\<close>, which is
  position 7, where the byte is 0.
\<close>

theorem sz_rfind_byte_serial_wrong_position:
  "\<forall>sg. sz_rfind_byte_serial sg 0 [0, 0, 0, 0, 0, 0, 0, 0, 1, 0, 0, 0, 0, 0, 0, 0] [1] = Inr (Some 7)
        \<and> [0, 0, 0, 0, 0, 0, 0, 0, 1, 0, 0, 0, 0, 0, 0, 0 :: c_char] ! 7 \<noteq> 1
        \<and> [0, 0, 0, 0, 0, 0, 0, 0, 1, 0, 0, 0, 0, 0, 0, 0 :: c_char] ! 8 = 1"
proof
  fix sg
  have "sz_rfind_byte_serial sg 0 [0, 0, 0, 0, 0, 0, 0, 0, 1, 0, 0, 0, 0, 0, 0, 0] [1] = Inr (Some 7)"
    by (cases sg) (simp_all, code_simp+)
  then show "sz_rfind_byte_serial sg 0 [0, 0, 0, 0, 0, 0, 0, 0, 1, 0, 0, 0, 0, 0, 0, 0] [1] = Inr (Some 7)
        \<and> [0, 0, 0, 0, 0, 0, 0, 0, 1, 0, 0, 0, 0, 0, 0, 0 :: c_char] ! 7 \<noteq> 1
        \<and> [0, 0, 0, 0, 0, 0, 0, 0, 1, 0, 0, 0, 0, 0, 0, 0 :: c_char] ! 8 = 1"
    by simp
qed

subsection \<open>Substring search\<close>

text \<open>
  Claim C1. For every haystack \<open>h\<close> and non-empty needle \<open>n\<close> with \<open>|n| \<le> |h|\<close>,
  \<open>find\<close> returns \<open>p\<close> if and only if the \<open>|n|\<close> bytes of \<open>h\<close> at \<open>p\<close> equal \<open>n\<close> and no
  smaller position has this property; when no position has it, \<open>find\<close> returns the
  not-found sentinel.

  The two-byte kernel compares the odd offsets on the loaded word shifted right by
  eight bits, whose last 16-bit lane is the byte at offset 7 followed by a zero byte:
  a needle that ends in a zero byte is reported at offset 7 of the window although the
  haystack ends there. The result does not depend on the platform parameters.
\<close>

theorem sz_find_serial_2byte_spurious_match:
  "\<forall>sg addr. sz_find_serial sg addr [1, 1, 1, 1, 1, 1, 1, 2] [2, 0] = Inr (Some 7)
             \<and> \<not> occurs_at [1, 1, 1, 1, 1, 1, 1, 2] [2, 0] 7"
proof (intro allI conjI)
  fix sg addr
  show "sz_find_serial sg addr [1, 1, 1, 1, 1, 1, 1, 2] [2, 0] = Inr (Some 7)"
    by (simp add: sz_find_serial_def sz_find_2byte_serial_def) code_simp
  show "\<not> occurs_at [1, 1, 1, 1, 1, 1, 1, 2] [2, 0] 7"
    by (simp add: occurs_at_def)
qed

text \<open>
  Other paths of \<^verbatim>\<open>sz_find_serial\<close> at concrete inputs. In the two-byte kernel the
  test \<^verbatim>\<open>matches_even_vec.u64 + matches_odd_vec.u64\<close> wraps to 0 when only bit 63 of
  both words is set, and an occurrence of two zero bytes at offset 6 of the window is
  passed over. For needles longer than 64 bytes the scan resumes 64 bytes behind a
  candidate whose tail did not match, and passes over an occurrence that overlaps the
  candidate. Where plain \<^verbatim>\<open>char\<close> is signed, the broadcast of a needle byte from \<open>0x80\<close>
  upwards is sign-extended and the word loop of the one-byte kernel does not see it.
\<close>

lemma sz_find_serial_2byte_lost_match:
  "sz_find_serial False 0 [1, 1, 1, 1, 1, 1, 0, 0, 1] [0, 0] = Inr None
   \<and> occurs_at [1, 1, 1, 1, 1, 1, 0, 0, 1] [0, 0] 6"
  by code_simp

lemma sz_find_serial_long_needle_skips:
  "sz_find_serial False 0 (replicate 65 0x61 @ [0x62]) (replicate 64 0x61 @ [0x62]) = Inr None
   \<and> occurs_at (replicate 65 0x61 @ [0x62]) (replicate 64 0x61 @ [0x62]) 1"
  by code_simp

lemma sz_find_serial_signed_broadcast:
  "sz_find_serial True 0 [0, 0, 0, 0, 0, 0, 0, 0, 0, 0, 0x81, 0, 1, 0, 0, 0] [0x81] = Inr None
   \<and> occurs_at [0, 0, 0, 0, 0, 0, 0, 0, 0, 0, 0x81, 0, 1, 0, 0, 0] [0x81] 10"
  by code_simp

text \<open>The two search scenarios of the specification.\<close>

lemma sz_find_serial_scenarios:
  "sz_find_serial False 0 (map (of_nat \<circ> of_char) ''the quick brown fox jumps'')
      (map (of_nat \<circ> of_char) ''brown'') = Inr (Some 10)
   \<and> sz_find_serial False 0 (map (of_nat \<circ> of_char) ''aaaaaa'')
      (map (of_nat \<circ> of_char) ''aab'') = Inr None"
  by code_simp

text \<open>
  Claim C6. \<open>find\<close> returns the not-found sentinel whenever \<open>|h| < |n|\<close>, and also
  whenever the needle is empty, regardless of the haystack.
\<close>

theorem sz_find_serial_short_or_empty:
  "length haystack < length needle \<or> needle = [] \<Longrightarrow>
     sz_find_serial sg addr haystack needle = Inr None"
  by (auto simp add: sz_find_serial_def Let_def)

theorem sz_find_serial_short_or_empty_witness:
  "(length [1, 2 :: c_char] < length [1, 2, 3 :: c_char] \<or> [1, 2, 3 :: c_char] = [])
   \<and> sz_find_serial True 0 [1, 2] [1, 2, 3] = Inr None
   \<and> (length [1, 2 :: c_char] < length ([] :: c_char list) \<or> ([] :: c_char list) = [])
   \<and> sz_find_serial False 5 [1, 2] [] = Inr None"
  using sz_find_serial_short_or_empty [of "[1, 2]" "[1, 2, 3]" True 0]
        sz_find_serial_short_or_empty [of "[1, 2]" "[]" False 5]
  by simp

subsection \<open>Edit distance and alignment score\<close>

text \<open>
  Claim C3. With a scratch buffer of at least \<open>levenshtein_memory(|x|, |y|)\<close> bytes,
  \<open>levenshtein(x, y, scratch, b)\<close> is at most \<open>b\<close> and equals the minimum of \<open>b\<close> and
  the Levenshtein distance of \<open>x\<close> and \<open>y\<close>.

  With both lengths below 256 the cells are \<^verbatim>\<open>sz_u8_t\<close> and the costs
  \<^verbatim>\<open>previous_distances[idx_b + 1] + 1\<close> and \<^verbatim>\<open>current_distances[idx_b] + 1\<close> wrap at 256.
  For \<open>x\<close> of 255 bytes and a one-byte \<open>y\<close> that does not occur in it, the last row
  starts with \<^verbatim>\<open>current_distances[0] = 255\<close>, the insertion cost wraps to 0 and the
  function returns 0 under the bound 1000, in a buffer of the size that
  \<^verbatim>\<open>sz_levenshtein_memory_needed\<close> asks for; the distance is 255.
\<close>

theorem sz_levenshtein_serial_u8_wraps:
  "sz_levenshtein_serial (replicate 255 2) [1] [0, 0, 0, 0] 1000 = Inr 0
   \<and> levenshtein_distance (replicate 255 2) [1 :: c_char] = 255
   \<and> sz_levenshtein_memory_needed 255 1 = 4"
  by code_simp

lemma lev_rows_le_bound: "lev_rows rest i b previous current bound \<le> bound"
  by (induction rest arbitrary: i previous current) (auto split: prod.splits)

text \<open>On every input the result does not exceed the bound.\<close>

lemma sz_levenshtein_serial_le_bound:
  "sz_levenshtein_serial a b buffer bound = Inr d \<Longrightarrow> d \<le> bound"
  by (auto simp add: sz_levenshtein_serial_def sz_levenshtein_serial_upto256bytes_def
        sz_levenshtein_serial_over256bytes_def Let_def lev_rows_le_bound split: if_splits)

lemma sz_min_of_two_min: "sz_min_of_two x y = min x y"
  by (auto simp add: sz_min_of_two_def min_def)

lemma sz_min_of_three_swap: "sz_min_of_three x y z = sz_min_of_three y x z"
  by (simp add: sz_min_of_three_def sz_min_of_two_min min.left_commute)

lemma sz_min_of_three_le3: "sz_min_of_three x y z \<le> z"
  by (simp add: sz_min_of_three_def sz_min_of_two_min min.coboundedI2)

lemma lev_w_Nil2: "lev_w xs [] = of_nat (length xs)"
  by (cases xs) simp_all

lemma lev_w_sym: "(lev_w xs ys :: 'a::len word) = lev_w ys xs"
proof (induction xs ys rule: lev_w.induct)
  case (1 ys)
  then show ?case by (simp add: lev_w_Nil2)
next
  case (2 x xs)
  then show ?case by simp
next
  case (3 x xs y ys)
  have "(x \<noteq> y) = (y \<noteq> x)" by auto
  with 3 show ?case
    by (simp add: sz_min_of_three_swap [of "lev_w ys (x # xs) + 1"])
qed

lemma unat_of_nat_le: "unat (of_nat n :: 'a::len word) \<le> n"
  by (simp add: unat_of_nat)

lemma unat_lev_w: "unat (lev_w xs ys :: 'a::len word) \<le> max (length xs) (length ys)"
proof (induction xs ys rule: lev_w.induct)
  case (1 ys)
  then show ?case by (simp add: unat_of_nat_le)
next
  case (2 x xs)
  have "unat (of_nat (length (x # xs)) :: 'a word) \<le> length (x # xs)"
    by (rule unat_of_nat_le)
  then show ?case
    by (simp only: lev_w.simps list.size max_0R)
next
  case (3 x xs y ys)
  let ?c = "(if x \<noteq> y then 1 else 0) :: 'a word"
  have "unat (lev_w (x # xs) (y # ys) :: 'a word) \<le> unat (lev_w xs ys + ?c :: 'a word)"
    by (simp only: lev_w.simps word_le_nat_alt [symmetric] sz_min_of_three_le3)
  also have "\<dots> \<le> unat (lev_w xs ys :: 'a word) + unat ?c"
    by (simp add: unat_word_ariths)
  also have "\<dots> \<le> max (length xs) (length ys) + 1"
    using "3.IH"(3) by (simp add: add_mono)
  finally show ?case by simp
qed


lemma lev_cell_row:
  fixes prev :: "'a::len word list"
  assumes prev: "\<forall>j \<le> length b. prev ! j = lev_w (rev pre) (rev (take j b))"
      and k: "k < length b"
      and ck: "c ! k = lev_w (a_i # rev pre) (rev (take k b))"
  shows "sz_min_of_three (prev ! (k + 1) + 1) (c ! k + 1)
           (prev ! k + (if a_i \<noteq> b ! k then 1 else 0))
         = lev_w (a_i # rev pre) (rev (take (Suc k) b))"
proof -
  have r: "rev (take (Suc k) b) = b ! k # rev (take k b)"
    using k by (simp add: take_Suc_conv_app_nth)
  have p1: "prev ! (k + 1) = lev_w (rev pre) (b ! k # rev (take k b))"
    using prev k r by (metis Suc_eq_plus1 Suc_leI)
  have p0: "prev ! k = lev_w (rev pre) (rev (take k b))"
    using prev k by simp
  show ?thesis
    by (simp only: r lev_w.simps p1 p0 ck)
qed

lemma lev_fold_inv:
  fixes prev curr :: "'a::len word list"
  assumes prev: "\<forall>j \<le> length b. prev ! j = lev_w (rev pre) (rev (take j b))"
      and curr: "length curr = length b + 1" "curr ! 0 = of_nat (length pre + 1)"
      and k: "k \<le> length b"
  shows "\<exists>c md. fold (lev_cell a_i b prev) [0..<k] (curr, md0) = (c, md)
           \<and> length c = length b + 1
           \<and> (\<forall>j \<le> k. c ! j = lev_w (a_i # rev pre) (rev (take j b)))
           \<and> (\<forall>j. 0 < j \<and> j \<le> k \<longrightarrow> md \<le> ucast (c ! j))"
  using k
proof (induction k)
  case 0
  then show ?case using curr by simp
next
  case (Suc k)
  then obtain c md where f: "fold (lev_cell a_i b prev) [0..<k] (curr, md0) = (c, md)"
      and len: "length c = length b + 1"
      and row: "\<forall>j \<le> k. c ! j = lev_w (a_i # rev pre) (rev (take j b))"
      and low: "\<forall>j. 0 < j \<and> j \<le> k \<longrightarrow> md \<le> ucast (c ! j)"
    by auto
  from Suc.prems have k: "k < length b" by simp
  let ?d = "sz_min_of_three (prev ! (k + 1) + 1) (c ! k + 1)
              (prev ! k + (if a_i \<noteq> b ! k then 1 else 0))"
  let ?c = "c[k + 1 := ?d]" and ?md = "sz_min_of_two (ucast ?d) md"
  have d: "?d = lev_w (a_i # rev pre) (rev (take (Suc k) b))"
    using prev k row by (intro lev_cell_row) auto
  have step: "fold (lev_cell a_i b prev) [0..<Suc k] (curr, md0) = (?c, ?md)"
    by (simp add: f lev_cell_def Let_def)
  have cells: "\<forall>j \<le> Suc k. ?c ! j = lev_w (a_i # rev pre) (rev (take j b))"
  proof (intro allI impI)
    fix j assume "j \<le> Suc k"
    show "?c ! j = lev_w (a_i # rev pre) (rev (take j b))"
    proof (cases "j = Suc k")
      case True
      then show ?thesis using len k d by simp
    next
      case False
      with \<open>j \<le> Suc k\<close> have "j \<le> k" by simp
      with row False show ?thesis by simp
    qed
  qed
  have m: "\<forall>j. 0 < j \<and> j \<le> Suc k \<longrightarrow> ?md \<le> ucast (?c ! j)"
  proof (intro allI impI)
    fix j assume j: "0 < j \<and> j \<le> Suc k"
    show "?md \<le> ucast (?c ! j)"
    proof (cases "j = Suc k")
      case True
      then show ?thesis using len k by (simp add: sz_min_of_two_min)
    next
      case False
      with j have "0 < j \<and> j \<le> k" by simp
      with low have "md \<le> ucast (c ! j)" by simp
      then show ?thesis using False by (simp add: sz_min_of_two_min min.coboundedI2)
    qed
  qed
  show ?case
    using step len cells m by simp
qed

lemma unat_ucast_le: "unat (ucast (w :: 'a::len word) :: 'b::len word) \<le> unat w"
  by (simp add: unsigned_ucast_eq take_bit_nat_less_eq_self)

lemma lev_rows_unbounded:
  fixes prev curr :: "'a::len word list"
  assumes "1 \<le> length b"
      and "max (length pre + length rest) (length b) < 2 ^ 64 - 1"
      and "\<forall>j \<le> length b. prev ! j = lev_w (rev pre) (rev (take j b))"
      and "length prev = length b + 1"
      and "length curr = length b + 1"
  shows "lev_rows rest (length pre) b prev curr (- 1)
           = ucast (lev_w (rev (pre @ rest)) (rev b) :: 'a word)"
  using assms
proof (induction rest arbitrary: pre prev curr)
  case Nil
  have "prev ! length b = lev_w (rev pre) (rev b)"
    using Nil.prems(3) by (metis order_refl take_all)
  moreover have "(if w < (- 1 :: sz_size_t) then w else - 1) = w" for w
    by (metis word_order.not_eq_extremum)
  ultimately show ?case by (simp only: lev_rows.simps append_Nil2)
next
  case (Cons a_i rest)
  let ?curr0 = "curr[0 := of_nat (length pre + 1)]"
  have "\<exists>c md. fold (lev_cell a_i b prev) [0..<length b] (?curr0, - 1) = (c, md)
           \<and> length c = length b + 1
           \<and> (\<forall>j \<le> length b. c ! j = lev_w (a_i # rev pre) (rev (take j b)))
           \<and> (\<forall>j. 0 < j \<and> j \<le> length b \<longrightarrow> md \<le> ucast (c ! j))"
    using Cons.prems by (intro lev_fold_inv) auto
  then obtain c md where f: "fold (lev_cell a_i b prev) [0..<length b] (?curr0, - 1) = (c, md)"
      and len: "length c = length b + 1"
      and row: "\<forall>j \<le> length b. c ! j = lev_w (rev (pre @ [a_i])) (rev (take j b))"
      and low: "\<forall>j. 0 < j \<and> j \<le> length b \<longrightarrow> md \<le> ucast (c ! j)"
    by auto
  have "0 < length b \<and> length b \<le> length b"
    using Cons.prems(1) by (simp add: Suc_le_eq)
  then have md: "md \<le> ucast (c ! length b)"
    by (rule low [rule_format])
  have "unat md \<le> unat (ucast (c ! length b) :: sz_size_t)"
    using md by (simp add: word_le_nat_alt)
  also have "\<dots> \<le> unat (c ! length b)"
    by (rule unat_ucast_le)
  also have "\<dots> \<le> max (length (rev (pre @ [a_i]))) (length (rev (take (length b) b)))"
    using row unat_lev_w [of "rev (pre @ [a_i])" "rev (take (length b) b)", where ?'a = 'a]
    by simp
  also have "\<dots> < 2 ^ 64 - 1"
    using Cons.prems(2) by simp
  finally have "unat md < unat (- 1 :: sz_size_t)"
    by (simp add: unsigned_minus_1_eq_mask mask_eq_exp_minus_1)
  then have no_exit: "\<not> md \<ge> - 1"
    by (simp add: word_le_nat_alt)
  have "lev_rows rest (length (pre @ [a_i])) b c prev (- 1)
          = ucast (lev_w (rev ((pre @ [a_i]) @ rest)) (rev b) :: 'a word)"
    using Cons.prems row len by (intro Cons.IH) auto
  then show ?case
    using f no_exit by simp
qed


lemma lev_value_sym: "lev_value a b = lev_value b a"
  by (cases "a = []"; cases "b = []")
     (auto simp add: lev_value_def lev_w_sym [of "rev a" "rev b"])

lemma first_row:
  "\<forall>j \<le> length b. (map of_nat [0..<length b + 1] :: 'a::len word list) ! j
      = lev_w (rev []) (rev (take j b))"
proof (intro allI impI)
  fix j assume j: "j \<le> length b"
  have "(map of_nat [0..<length b + 1] :: 'a word list) ! j = of_nat ([0..<length b + 1] ! j)"
    using j by (intro nth_map) simp
  also have "[0..<length b + 1] ! j = j"
    using j nth_upt [of 0 j "length b + 1"] by simp
  finally show "(map of_nat [0..<length b + 1] :: 'a word list) ! j
      = lev_w (rev []) (rev (take j b))"
    using j by (simp add: min_def)
qed

lemma upto256_unbounded:
  assumes "1 \<le> length b" and "length a < 256" and "length b < 256"
      and "2 * (length b + 1) \<le> length buffer"
  shows "sz_levenshtein_serial_upto256bytes a b buffer (- 1)
           = Inr (ucast (lev_w (rev a) (rev b) :: sz_u8_t))"
proof -
  have "lev_rows a (length ([] :: c_char list)) b (map of_nat [0..<length b + 1] :: sz_u8_t list)
          (take (length b + 1) (drop (length b + 1) buffer)) (- 1)
        = ucast (lev_w (rev ([] @ a)) (rev b) :: sz_u8_t)"
    using assms first_row [of b, where ?'a = 8]
    by (intro lev_rows_unbounded) auto
  then show ?thesis
    using assms by (simp add: sz_levenshtein_serial_upto256bytes_def)
qed

lemma over256_unbounded:
  assumes "1 \<le> length b" and "max (length a) (length b) < 2 ^ 64 - 1"
      and "8 * (2 * (length b + 1)) \<le> length buffer"
  shows "sz_levenshtein_serial_over256bytes a b buffer (- 1)
           = Inr (lev_w (rev a) (rev b) :: sz_size_t)"
proof -
  have "lev_rows a (length ([] :: c_char list)) b (map of_nat [0..<length b + 1] :: sz_size_t list)
          (map (\<lambda>k. sz_u64_unaligned_load buffer (8 * (length b + 1 + k))) [0..<length b + 1]) (- 1)
        = ucast (lev_w (rev ([] @ a)) (rev b) :: sz_size_t)"
    using assms first_row [of b, where ?'a = 64]
    by (intro lev_rows_unbounded) auto
  then show ?thesis
    using assms by (simp add: sz_levenshtein_serial_over256bytes_def)
qed

lemma unat_of_nat_small: "n < 2 ^ 64 \<Longrightarrow> unat (of_nat n :: sz_size_t) = n"
  by (simp add: unat_of_nat)

lemma memory_needed_unat:
  assumes "length a + 1 < 2 ^ 60" and "length b + 1 < 2 ^ 60"
  shows "unat (sz_levenshtein_memory_needed (of_nat (length a)) (of_nat (length b)))
           = (if length a < 256 \<and> length b < 256 then 2 * (length b + 1)
              else 8 * (2 * (length b + 1)))"
proof -
  have la: "(of_nat (length a) :: sz_size_t) < 256 \<longleftrightarrow> length a < 256"
    using assms(1) by (simp add: word_less_nat_alt unat_of_nat_small)
  have lb: "(of_nat (length b) :: sz_size_t) < 256 \<longleftrightarrow> length b < 256"
    using assms(2) by (simp add: word_less_nat_alt unat_of_nat_small)
  have e1: "(of_nat (length b) + of_nat (length b) + 2 :: sz_size_t) * 1
              = of_nat (2 * (length b + 1))"
    by simp
  have e8: "(of_nat (length b) + of_nat (length b) + 2 :: sz_size_t) * 8
              = of_nat (8 * (2 * (length b + 1)))"
    by simp
  have u1: "unat (of_nat (2 * (length b + 1)) :: sz_size_t) = 2 * (length b + 1)"
    using assms(2) by (intro unat_of_nat_small) simp
  have u8: "unat (of_nat (8 * (2 * (length b + 1))) :: sz_size_t) = 8 * (2 * (length b + 1))"
    using assms(2) by (intro unat_of_nat_small) simp
  show ?thesis
    unfolding sz_levenshtein_memory_needed_def la lb e1 e8
    using u1 u8 by simp
qed

lemma sz_levenshtein_serial_unbounded:
  assumes "length a + 1 < 2 ^ 60" and "length b + 1 < 2 ^ 60"
      and "unat (sz_levenshtein_memory_needed (of_nat (length a)) (of_nat (length b)))
             \<le> length buffer"
  shows "sz_levenshtein_serial a b buffer unbounded = Inr (lev_value a b)"
proof -
  have max_le: "(if w \<le> (- 1 :: sz_size_t) then w else - 1) = w" for w
    by simp
  have no_gt: "\<not> w > (- 1 :: sz_size_t)" for w
    by simp
  have big: "max (length a) (length b) < 2 ^ 64 - 1"
    using assms(1,2) by simp
  show ?thesis
  proof (cases "a = [] \<or> b = []")
    case True
    then show ?thesis
      by (auto simp add: sz_levenshtein_serial_def unbounded_def lev_value_def Let_def)
  next
    case False
    then have ne: "a \<noteq> []" "b \<noteq> []" "1 \<le> length b"
      by (auto simp add: Suc_le_eq)
    show ?thesis
    proof (cases "length a < 256 \<and> length b < 256")
      case True
      then have "2 * (length b + 1) \<le> length buffer"
        using assms memory_needed_unat [of a b] by simp
      then have "sz_levenshtein_serial_upto256bytes a b buffer (- 1)
           = Inr (ucast (lev_w (rev a) (rev b) :: sz_u8_t))"
        using True ne by (intro upto256_unbounded) auto
      then show ?thesis
        using True ne
        by (simp add: sz_levenshtein_serial_def unbounded_def lev_value_def Let_def)
    next
      case False
      then have "8 * (2 * (length b + 1)) \<le> length buffer"
        using assms memory_needed_unat [of a b] by auto
      then have "sz_levenshtein_serial_over256bytes a b buffer (- 1)
           = Inr (lev_w (rev a) (rev b) :: sz_size_t)"
        using big ne by (intro over256_unbounded) auto
      then show ?thesis
        using False ne
        by (auto simp add: sz_levenshtein_serial_def unbounded_def lev_value_def Let_def)
    qed
  qed
qed

text \<open>
  Claim C4. With the bound set to the maximum representable size and adequate scratch
  buffers for each call, \<open>levenshtein(x, y, bound) = levenshtein(y, x, bound)\<close>.

  The proof relates the two rows of the kernel to the table \<open>lev_w\<close>, which is symmetric
  also where the 8-bit cells wrap. Strings are shorter than \<open>2 ^ 60 - 1\<close> bytes, the
  sizes for which \<^verbatim>\<open>sz_levenshtein_memory_needed\<close> does not overflow; under the bound
  \<open>unbounded\<close> no row triggers the early return.
\<close>

theorem sz_levenshtein_serial_symmetric:
  assumes "length x + 1 < 2 ^ 60" and "length y + 1 < 2 ^ 60"
      and "unat (sz_levenshtein_memory_needed (of_nat (length x)) (of_nat (length y)))
             \<le> length scratch_xy"
      and "unat (sz_levenshtein_memory_needed (of_nat (length y)) (of_nat (length x)))
             \<le> length scratch_yx"
  shows "\<exists>d. sz_levenshtein_serial x y scratch_xy unbounded = Inr d
           \<and> sz_levenshtein_serial y x scratch_yx unbounded = Inr d"
  using sz_levenshtein_serial_unbounded [OF assms(1,2,3)]
        sz_levenshtein_serial_unbounded [OF assms(2,1,4)]
        lev_value_sym [of x y]
  by simp

theorem sz_levenshtein_serial_symmetric_witness:
  "length [1, 2, 3 :: c_char] + 1 < 2 ^ 60 \<and> length [3, 1 :: c_char] + 1 < 2 ^ 60
   \<and> unat (sz_levenshtein_memory_needed (of_nat (length [1, 2, 3 :: c_char]))
              (of_nat (length [3, 1 :: c_char]))) \<le> length [0, 0, 0, 0, 0, 0 :: c_char]
   \<and> unat (sz_levenshtein_memory_needed (of_nat (length [3, 1 :: c_char]))
              (of_nat (length [1, 2, 3 :: c_char]))) \<le> length [9, 9, 9, 9, 9, 9, 9, 9, 9 :: c_char]
   \<and> (\<exists>d. sz_levenshtein_serial [1, 2, 3] [3, 1] [0, 0, 0, 0, 0, 0] unbounded = Inr d
           \<and> sz_levenshtein_serial [3, 1] [1, 2, 3] [9, 9, 9, 9, 9, 9, 9, 9, 9] unbounded = Inr d)"
proof -
  have h1: "length [1, 2, 3 :: c_char] + 1 < 2 ^ 60" by simp
  have h2: "length [3, 1 :: c_char] + 1 < 2 ^ 60" by simp
  have h3: "unat (sz_levenshtein_memory_needed (of_nat (length [1, 2, 3 :: c_char]))
              (of_nat (length [3, 1 :: c_char]))) \<le> length [0, 0, 0, 0, 0, 0 :: c_char]"
    by (simp add: sz_levenshtein_memory_needed_def)
  have h4: "unat (sz_levenshtein_memory_needed (of_nat (length [3, 1 :: c_char]))
              (of_nat (length [1, 2, 3 :: c_char]))) \<le> length [9, 9, 9, 9, 9, 9, 9, 9, 9 :: c_char]"
    by (simp add: sz_levenshtein_memory_needed_def)
  show ?thesis
    using h1 h2 h3 h4 sz_levenshtein_serial_symmetric [OF h1 h2 h3 h4] by blast
qed

text \<open>
  The distance that \<^verbatim>\<open>sz_levenshtein_serial\<close> computes where its cells do not wrap.
  The Levenshtein distance is the length of a shortest edit script, which makes it
  invariant under reversal of both strings; the rows of the kernel hold the distances of
  the prefixes; a row whose cells all reach the bound forces the distance to reach it.
  With 8-bit cells no cell wraps when both strings are shorter than 255 bytes.
\<close>

lemma edits_only_ins: "edits (length ys) [] ys"
  by (induction ys) (auto intro: edits.intros)

lemma edits_only_del: "edits (length xs) xs []"
  by (induction xs) (auto intro: edits.intros)

lemma edits_levenshtein_distance: "edits (levenshtein_distance xs ys) xs ys"
proof (induction xs ys rule: levenshtein_distance.induct)
  case (1 ys)
  show ?case by (simp add: edits_only_ins)
next
  case (2 x xs)
  show ?case using edits_only_del [of "x # xs"] by simp
next
  case (3 x xs y ys)
  let ?d = "levenshtein_distance xs (y # ys) + 1"
  let ?i = "levenshtein_distance (x # xs) ys + 1"
  let ?s = "levenshtein_distance xs ys + (if x = y then 0 else 1)"
  have d: "edits ?d (x # xs) (y # ys)"
    using edits_del [OF "3.IH"(1)] by simp
  have i: "edits ?i (x # xs) (y # ys)"
    using edits_ins [OF "3.IH"(2)] by simp
  have s: "edits ?s (x # xs) (y # ys)"
    using edits_sub [OF "3.IH"(3)] by simp
  have "min (min ?d ?i) ?s \<in> {?d, ?i, ?s}"
    by (simp add: min_def)
  then show ?case
    using d i s by (simp only: levenshtein_distance.simps) auto
qed

lemma levenshtein_distance_Nil2: "levenshtein_distance xs [] = length xs"
  by (cases xs) simp_all

lemma levenshtein_distance_del: "levenshtein_distance (x # xs) ys \<le> levenshtein_distance xs ys + 1"
  by (cases ys) (simp_all add: min.coboundedI1 levenshtein_distance_Nil2)

lemma levenshtein_distance_ins: "levenshtein_distance xs (y # ys) \<le> levenshtein_distance xs ys + 1"
  by (cases xs) (simp_all add: min.coboundedI1 min.coboundedI2)

lemma levenshtein_distance_least: "edits n xs ys \<Longrightarrow> levenshtein_distance xs ys \<le> n"
proof (induction rule: edits.induct)
  case edits_Nil
  show ?case by simp
next
  case (edits_del n xs ys x)
  then show ?case using levenshtein_distance_del [of x xs ys] by simp
next
  case (edits_ins n xs ys y)
  then show ?case using levenshtein_distance_ins [of xs y ys] by simp
next
  case (edits_sub n xs ys x y)
  then show ?case by (simp add: min.coboundedI2)
qed

lemma edits_del_end: "edits n xs ys \<Longrightarrow> edits (Suc n) (xs @ [x]) ys"
proof (induction rule: edits.induct)
  case edits_Nil
  show ?case using edits_del [OF edits.edits_Nil, of x] by simp
next
  case (edits_del n xs ys x')
  show ?case using edits.edits_del [OF edits_del.IH, of x'] by simp
next
  case (edits_ins n xs ys y)
  show ?case using edits.edits_ins [OF edits_ins.IH, of y] by simp
next
  case (edits_sub n xs ys x' y)
  show ?case using edits.edits_sub [OF edits_sub.IH, of x' y] by simp
qed

lemma edits_ins_end: "edits n xs ys \<Longrightarrow> edits (Suc n) xs (ys @ [y])"
proof (induction rule: edits.induct)
  case edits_Nil
  show ?case using edits_ins [OF edits.edits_Nil, of y] by simp
next
  case (edits_del n xs ys x)
  show ?case using edits.edits_del [OF edits_del.IH, of x] by simp
next
  case (edits_ins n xs ys y')
  show ?case using edits.edits_ins [OF edits_ins.IH, of y'] by simp
next
  case (edits_sub n xs ys x y')
  show ?case using edits.edits_sub [OF edits_sub.IH, of x y'] by simp
qed

lemma edits_sub_end:
  "edits n xs ys \<Longrightarrow> edits (n + (if x = y then 0 else 1)) (xs @ [x]) (ys @ [y])"
proof (induction rule: edits.induct)
  case edits_Nil
  show ?case using edits_sub [OF edits.edits_Nil, of x y] by simp
next
  case (edits_del n xs ys x')
  show ?case using edits.edits_del [OF edits_del.IH, of x'] by simp
next
  case (edits_ins n xs ys y')
  show ?case using edits.edits_ins [OF edits_ins.IH, of y'] by simp
next
  case (edits_sub n xs ys x' y')
  show ?case using edits.edits_sub [OF edits_sub.IH, of x' y'] by (simp add: add.commute add.left_commute)
qed

lemma edits_rev: "edits n xs ys \<Longrightarrow> edits n (rev xs) (rev ys)"
proof (induction rule: edits.induct)
  case edits_Nil
  show ?case by (simp add: edits.edits_Nil)
next
  case (edits_del n xs ys x)
  then show ?case by (simp add: edits_del_end)
next
  case (edits_ins n xs ys y)
  then show ?case by (simp add: edits_ins_end)
next
  case (edits_sub n xs ys x y)
  show ?case using edits_sub_end [OF edits_sub.IH, of x y] by simp
qed

lemma levenshtein_distance_rev:
  "levenshtein_distance (rev xs) (rev ys) = levenshtein_distance xs ys"
proof (rule antisym)
  show "levenshtein_distance (rev xs) (rev ys) \<le> levenshtein_distance xs ys"
    by (intro levenshtein_distance_least edits_rev edits_levenshtein_distance)
  have "levenshtein_distance (rev (rev xs)) (rev (rev ys)) \<le> levenshtein_distance (rev xs) (rev ys)"
    by (intro levenshtein_distance_least edits_rev edits_levenshtein_distance)
  then show "levenshtein_distance xs ys \<le> levenshtein_distance (rev xs) (rev ys)"
    by simp
qed

lemma edits_lengths:
  "edits n xs ys \<Longrightarrow> length xs \<le> length ys + n \<and> length ys \<le> length xs + n"
  by (induction rule: edits.induct) auto

lemma levenshtein_distance_ge_diff:
  "length xs - length ys \<le> levenshtein_distance xs ys"
  "length ys - length xs \<le> levenshtein_distance xs ys"
  using edits_lengths [OF edits_levenshtein_distance, of xs ys] by auto

lemma levenshtein_distance_le_max:
  "levenshtein_distance xs ys \<le> max (length xs) (length ys)"
proof (induction xs ys rule: levenshtein_distance.induct)
  case (3 x xs y ys)
  have "levenshtein_distance (x # xs) (y # ys)
          \<le> levenshtein_distance xs ys + (if x = y then 0 else 1)"
    by (simp add: min.coboundedI2)
  also have "\<dots> \<le> max (length xs) (length ys) + 1"
    using "3.IH"(3) by simp
  finally show ?case by simp
qed simp_all


text \<open>Without wrap-around the table holds the Levenshtein distances of the reversed prefixes.\<close>

lemma unat_min_of_three:
  "unat (sz_min_of_three x y z :: 'a::len word) = min (min (unat x) (unat y)) (unat z)"
  by (auto simp add: sz_min_of_three_def sz_min_of_two_def min_def word_less_nat_alt)

lemma unat_succ_small:
  "unat (w :: 'a::len word) + 1 < 2 ^ LENGTH('a) \<Longrightarrow> unat (w + 1) = unat w + 1"
  by (metis unat_add_lem unsigned_1)

lemma unat_lev_w_exact:
  "max (length xs) (length ys) + 1 < 2 ^ LENGTH('a) \<Longrightarrow>
     unat (lev_w xs ys :: 'a::len word) = levenshtein_distance xs ys"
proof (induction xs ys rule: levenshtein_distance.induct)
  case (1 ys)
  then show ?case by (simp add: unat_of_nat)
next
  case (2 x xs)
  have "unat (of_nat (length (x # xs)) :: 'a word) = length (x # xs)"
    using 2 by (simp only: unat_of_nat) simp
  then show ?case by (simp only: lev_w.simps levenshtein_distance.simps)
next
  case (3 x xs y ys)
  have b1: "max (length xs) (length (y # ys)) + 1 < 2 ^ LENGTH('a)"
   and b2: "max (length (x # xs)) (length ys) + 1 < 2 ^ LENGTH('a)"
   and b3: "max (length xs) (length ys) + 1 < 2 ^ LENGTH('a)"
    using "3.prems" by simp_all
  note IH = "3.IH"(1) [OF b1] "3.IH"(2) [OF b2] "3.IH"(3) [OF b3]
  have m: "levenshtein_distance xs (y # ys) + 1 < 2 ^ LENGTH('a)"
          "levenshtein_distance (x # xs) ys + 1 < 2 ^ LENGTH('a)"
          "levenshtein_distance xs ys + 1 < 2 ^ LENGTH('a)"
    using levenshtein_distance_le_max [of xs "y # ys"] levenshtein_distance_le_max [of "x # xs" ys]
          levenshtein_distance_le_max [of xs ys] "3.prems"
    by simp_all
  have u1: "unat (lev_w xs (y # ys) + 1 :: 'a word) = levenshtein_distance xs (y # ys) + 1"
    using m(1) IH(1) by (simp add: unat_succ_small)
  have u2: "unat (lev_w (x # xs) ys + 1 :: 'a word) = levenshtein_distance (x # xs) ys + 1"
    using m(2) IH(2) by (simp add: unat_succ_small)
  have u3: "unat (lev_w xs ys + (if x \<noteq> y then 1 else 0) :: 'a word)
              = levenshtein_distance xs ys + (if x = y then 0 else 1)"
    using m(3) IH(3) by (simp add: unat_succ_small)
  show ?case
    by (simp only: lev_w.simps levenshtein_distance.simps unat_min_of_three u1 u2 u3)
qed


lemma row_mono:
  assumes "\<forall>P S. Y = P @ S \<longrightarrow> m \<le> levenshtein_distance X S"
  shows "\<forall>P S. Y = P @ S \<longrightarrow> m \<le> levenshtein_distance (x # X) S"
proof (intro allI impI)
  fix P S assume "Y = P @ S"
  then show "m \<le> levenshtein_distance (x # X) S"
  proof (induction S arbitrary: P)
    case Nil
    have "m \<le> levenshtein_distance X []" using assms Nil by blast
    then show ?case by (simp add: levenshtein_distance_Nil2)
  next
    case (Cons y S)
    have 1: "m \<le> levenshtein_distance X (y # S)" using assms Cons.prems by blast
    have "Y = (P @ [y]) @ S" using Cons.prems by simp
    then have 2: "m \<le> levenshtein_distance (x # X) S" and 3: "m \<le> levenshtein_distance X S"
      using Cons.IH assms by blast+
    show ?case using 1 2 3 by simp
  qed
qed

lemma rows_mono:
  assumes "\<forall>P S. Y = P @ S \<longrightarrow> m \<le> levenshtein_distance X S"
  shows "m \<le> levenshtein_distance (Z @ X) Y"
proof -
  have "\<forall>P S. Y = P @ S \<longrightarrow> m \<le> levenshtein_distance (Z @ X) S"
  proof (induction Z)
    case Nil
    show ?case using assms by simp
  next
    case (Cons z Z)
    show ?case using row_mono [OF Cons.IH, of z] by simp
  qed
  then show ?thesis by blast
qed

lemma levenshtein_distance_one: "X \<noteq> [] \<Longrightarrow> levenshtein_distance X [y] \<le> length X"
proof (cases X)
  case (Cons x X')
  have "levenshtein_distance (x # X') [y]
          \<le> levenshtein_distance X' [] + (if x = y then 0 else 1)"
    by (simp add: min.coboundedI2)
  also have "\<dots> \<le> length X' + 1"
    by (simp add: levenshtein_distance_Nil2)
  finally show ?thesis using Cons by (simp del: levenshtein_distance.simps)
qed simp

lemma ucast_lev_w_exact:
  assumes "max (length xs) (length ys) + 1 < 2 ^ LENGTH('a)"
  shows "(ucast (lev_w xs ys :: 'a::len word) :: sz_size_t) = of_nat (levenshtein_distance xs ys)"
proof -
  have "(ucast (lev_w xs ys :: 'a word) :: sz_size_t) = of_nat (unat (lev_w xs ys :: 'a word))"
    by simp
  then show ?thesis using unat_lev_w_exact [OF assms] by simp
qed

lemma if_less_min: "(if w < b then w else b) = min b (w :: 'a::linorder)"
  by (auto simp add: min_def)

lemma lev_rows_bounded:
  fixes prev curr :: "'a::len word list"
  assumes "1 \<le> length b"
      and "max (length pre + length rest) (length b) + 1 < 2 ^ LENGTH('a)"
      and "LENGTH('a) \<le> 64"
      and "\<forall>j \<le> length b. prev ! j = lev_w (rev pre) (rev (take j b))"
      and "length prev = length b + 1"
      and "length curr = length b + 1"
  shows "lev_rows rest (length pre) b prev curr bound
           = min bound (of_nat (levenshtein_distance (pre @ rest) b))"
  using assms
proof (induction rest arbitrary: pre prev curr)
  case Nil
  have "prev ! length b = lev_w (rev pre) (rev b)"
    using Nil.prems(4) by (metis order_refl take_all)
  moreover have "(ucast (lev_w (rev pre) (rev b) :: 'a word) :: sz_size_t)
                   = of_nat (levenshtein_distance (rev pre) (rev b))"
    using Nil.prems(2) by (intro ucast_lev_w_exact) simp
  ultimately show ?case
    by (simp only: lev_rows.simps if_less_min append_Nil2 levenshtein_distance_rev)
next
  case (Cons a_i rest)
  let ?X = "a_i # rev pre"
  let ?curr0 = "curr[0 := of_nat (length pre + 1)]"
  have two: "(2 :: nat) ^ LENGTH('a) \<le> 2 ^ 64"
    using Cons.prems(3) by (intro power_increasing) simp_all
  have "\<exists>c md. fold (lev_cell a_i b prev) [0..<length b] (?curr0, bound) = (c, md)
           \<and> length c = length b + 1
           \<and> (\<forall>j \<le> length b. c ! j = lev_w (a_i # rev pre) (rev (take j b)))
           \<and> (\<forall>j. 0 < j \<and> j \<le> length b \<longrightarrow> md \<le> ucast (c ! j))"
    using Cons.prems by (intro lev_fold_inv) auto
  then obtain c md where f: "fold (lev_cell a_i b prev) [0..<length b] (?curr0, bound) = (c, md)"
      and len: "length c = length b + 1"
      and row: "\<forall>j \<le> length b. c ! j = lev_w ?X (rev (take j b))"
      and low: "\<forall>j. 0 < j \<and> j \<le> length b \<longrightarrow> md \<le> ucast (c ! j)"
    by auto
  show ?case
  proof (cases "md \<ge> bound")
    case True
    have cell: "unat bound \<le> levenshtein_distance ?X (rev (take j b))"
      if j: "0 < j" "j \<le> length b" for j
    proof -
      have "bound \<le> ucast (c ! j)" using True low j by force
      then have "unat bound \<le> unat (ucast (c ! j) :: sz_size_t)"
        by (simp add: word_le_nat_alt)
      also have "\<dots> \<le> unat (c ! j)" by (rule unat_ucast_le)
      also have "\<dots> = unat (lev_w ?X (rev (take j b)) :: 'a word)"
        using row j by simp
      also have "\<dots> = levenshtein_distance ?X (rev (take j b))"
        using Cons.prems(2) j by (intro unat_lev_w_exact) simp
      finally show ?thesis .
    qed
    have all: "\<forall>P S. rev b = P @ S \<longrightarrow> unat bound \<le> levenshtein_distance ?X S"
    proof (intro allI impI)
      fix P S assume PS: "rev b = P @ S"
      then have "b = rev S @ rev P" by (metis rev_append rev_rev_ident)
      then have S: "rev (take (length S) b) = S" and lS: "length S \<le> length b"
        by simp_all
      show "unat bound \<le> levenshtein_distance ?X S"
      proof (cases "S = []")
        case False
        then show ?thesis using cell [of "length S"] S lS by simp
      next
        case True
        obtain y where y: "rev (take 1 b) = [y]"
          using Cons.prems(1) by (cases b) simp_all
        have "unat bound \<le> levenshtein_distance ?X (rev (take 1 b))"
          using cell [of 1] Cons.prems(1) by simp
        also have "\<dots> \<le> length ?X"
          unfolding y by (rule levenshtein_distance_one) simp
        finally show ?thesis
          using True by (simp add: levenshtein_distance_Nil2)
      qed
    qed
    have "unat bound \<le> levenshtein_distance (rev rest @ ?X) (rev b)"
      by (rule rows_mono [OF all])
    then have D: "unat bound \<le> levenshtein_distance (pre @ a_i # rest) b"
      using levenshtein_distance_rev [of "pre @ a_i # rest" b] by simp
    have "levenshtein_distance (pre @ a_i # rest) b < 2 ^ 64"
      using levenshtein_distance_le_max [of "pre @ a_i # rest" b] Cons.prems(2) two by simp
    then have "unat (of_nat (levenshtein_distance (pre @ a_i # rest) b) :: sz_size_t)
                 = levenshtein_distance (pre @ a_i # rest) b"
      by (simp add: unat_of_nat)
    then have "bound \<le> of_nat (levenshtein_distance (pre @ a_i # rest) b)"
      using D by (simp add: word_le_nat_alt)
    then show ?thesis
      using f True by (simp add: min_def)
  next
    case False
    have "lev_rows rest (length (pre @ [a_i])) b c prev bound
            = min bound (of_nat (levenshtein_distance ((pre @ [a_i]) @ rest) b))"
      using Cons.prems row len by (intro Cons.IH) auto
    then show ?thesis
      using f False by simp
  qed
qed


lemma upto256_bounded:
  assumes "1 \<le> length b" and "max (length a) (length b) < 255"
      and "2 * (length b + 1) \<le> length buffer"
  shows "sz_levenshtein_serial_upto256bytes a b buffer bound
           = Inr (min bound (of_nat (levenshtein_distance a b)))"
proof -
  have "lev_rows a (length ([] :: c_char list)) b (map of_nat [0..<length b + 1] :: sz_u8_t list)
          (take (length b + 1) (drop (length b + 1) buffer)) bound
        = min bound (of_nat (levenshtein_distance ([] @ a) b))"
    using assms first_row [of b, where ?'a = 8]
    by (intro lev_rows_bounded) auto
  then show ?thesis
    using assms by (simp add: sz_levenshtein_serial_upto256bytes_def)
qed

lemma over256_bounded:
  assumes "1 \<le> length b" and "max (length a) (length b) + 1 < 2 ^ 64"
      and "8 * (2 * (length b + 1)) \<le> length buffer"
  shows "sz_levenshtein_serial_over256bytes a b buffer bound
           = Inr (min bound (of_nat (levenshtein_distance a b)))"
proof -
  have "lev_rows a (length ([] :: c_char list)) b (map of_nat [0..<length b + 1] :: sz_size_t list)
          (map (\<lambda>k. sz_u64_unaligned_load buffer (8 * (length b + 1 + k))) [0..<length b + 1]) bound
        = min bound (of_nat (levenshtein_distance ([] @ a) b))"
    using assms first_row [of b, where ?'a = 64]
    by (intro lev_rows_bounded) auto
  then show ?thesis
    using assms by (simp add: sz_levenshtein_serial_over256bytes_def)
qed

lemma bound_below_distance:
  assumes "length a + 1 < 2 ^ 60" and "length b + 1 < 2 ^ 60"
      and "n \<le> levenshtein_distance a b" and "(of_nat n :: sz_size_t) > bound"
  shows "min bound (of_nat (levenshtein_distance a b)) = bound"
proof -
  have "levenshtein_distance a b < 2 ^ 64"
    using levenshtein_distance_le_max [of a b] assms(1,2) by simp
  then have d: "unat (of_nat (levenshtein_distance a b) :: sz_size_t) = levenshtein_distance a b"
    by (rule unat_of_nat_small)
  have "unat bound < unat (of_nat n :: sz_size_t)"
    using assms(4) by (simp add: word_less_nat_alt)
  also have "\<dots> \<le> n" by (rule unat_of_nat_le)
  finally have "unat bound \<le> levenshtein_distance a b"
    using assms(3) by simp
  then have "bound \<le> of_nat (levenshtein_distance a b)"
    using d by (simp add: word_le_nat_alt)
  then show ?thesis by (simp add: min_def)
qed

lemma sz_levenshtein_serial_bounded:
  assumes "length a + 1 < 2 ^ 60" and "length b + 1 < 2 ^ 60"
      and "unat (sz_levenshtein_memory_needed (of_nat (length a)) (of_nat (length b)))
             \<le> length buffer"
      and "\<not> (length a < 256 \<and> length b < 256 \<and> (length a = 255 \<or> length b = 255))"
  shows "sz_levenshtein_serial a b buffer bound
           = Inr (min bound (of_nat (levenshtein_distance a b)))"
proof -
  have clamp: "(if w \<le> bound then w else bound) = min bound w" for w :: sz_size_t
    by (auto simp add: min_def)
  show ?thesis
  proof (cases "a = [] \<or> b = []")
    case True
    then show ?thesis
      by (auto simp add: sz_levenshtein_serial_def Let_def clamp levenshtein_distance_Nil2)
  next
    case False
    then have ne: "a \<noteq> []" "b \<noteq> []" "1 \<le> length b"
      by (auto simp add: Suc_le_eq)
    show ?thesis
    proof (cases "(length a > length b \<and> of_nat (length a - length b) > bound)
                  \<or> (\<not> length a > length b \<and> of_nat (length b - length a) > bound)")
      case True
      then have "min bound (of_nat (levenshtein_distance a b)) = bound"
        using bound_below_distance [OF assms(1,2) levenshtein_distance_ge_diff(1) [of a b]]
              bound_below_distance [OF assms(1,2) levenshtein_distance_ge_diff(2) [of b a]]
        by auto
      then show ?thesis
        using True ne by (auto simp add: sz_levenshtein_serial_def Let_def)
    next
      case nodiff: False
      show ?thesis
      proof (cases "length a < 256 \<and> length b < 256")
        case True
        then have "2 * (length b + 1) \<le> length buffer"
          using assms memory_needed_unat [of a b] by simp
        moreover have "max (length a) (length b) < 255"
          using True assms(4) by auto
        ultimately have "sz_levenshtein_serial_upto256bytes a b buffer bound
             = Inr (min bound (of_nat (levenshtein_distance a b)))"
          using ne by (intro upto256_bounded) auto
        then show ?thesis
          using True ne nodiff
          by (auto simp add: sz_levenshtein_serial_def Let_def)
      next
        case False
        then have "8 * (2 * (length b + 1)) \<le> length buffer"
          using assms memory_needed_unat [of a b] by auto
        moreover have "max (length a) (length b) + 1 < 2 ^ 64"
          using assms(1,2) by simp
        ultimately have "sz_levenshtein_serial_over256bytes a b buffer bound
             = Inr (min bound (of_nat (levenshtein_distance a b)))"
          using ne by (intro over256_bounded) auto
        then show ?thesis
          using False ne nodiff
          by (auto simp add: sz_levenshtein_serial_def Let_def)
      qed
    qed
  qed
qed

lemma sint_of_nat_small: "n < 2 ^ 63 \<Longrightarrow> sint (of_nat n :: 64 word) = int n"
  by (simp add: signed_of_nat signed_take_bit_int_eq_self)

text \<open>
  Claim C7. For every gap penalty, substitution matrix and scratch buffer,
  \<open>alignment_score\<close> with empty \<open>a\<close> returns \<open>|b|\<close> (the raw length, whatever the gap
  penalty), and with empty \<open>b\<close> returns \<open>|a|\<close>. The result is a \<^verbatim>\<open>sz_ssize_t\<close>; it is
  read as a signed number, which is the length for every length below \<open>2 ^ 63\<close>.
\<close>

theorem sz_alignment_score_serial_empty:
  "(length b < 2 ^ 63 \<longrightarrow>
      (\<exists>r. sz_alignment_score_serial sg [] b gap subs buffer = Inr r \<and> sint r = int (length b)))
   \<and> (length a < 2 ^ 63 \<longrightarrow>
      (\<exists>r. sz_alignment_score_serial sg a [] gap subs buffer = Inr r \<and> sint r = int (length a)))"
  by (auto simp add: sz_alignment_score_serial_def sint_of_nat_small)

theorem sz_alignment_score_serial_empty_witness:
  "length [7, 8, 9 :: c_char] < 2 ^ 63
   \<and> (\<exists>r. sz_alignment_score_serial True [] [7, 8, 9] 5 [] [] = Inr r \<and> sint r = 3)
   \<and> (\<exists>r. sz_alignment_score_serial False [7, 8, 9] [] 0xFE [1, 2] [3] = Inr r \<and> sint r = 3)"
  using sz_alignment_score_serial_empty
          [where a = "[7, 8, 9]" and b = "[7, 8, 9]" and sg = True and gap = 5
             and subs = "[]" and buffer = "[]"]
        sz_alignment_score_serial_empty
          [where a = "[7, 8, 9]" and b = "[7, 8, 9]" and sg = False and gap = "0xFE"
             and subs = "[1, 2]" and buffer = "[3]"]
  by simp

subsection \<open>Hash\<close>

lemma load_take:
  "i + 8 \<le> n \<Longrightarrow> sz_u64_unaligned_load (take n s) i = sz_u64_unaligned_load s i"
  by (simp add: sz_u64_unaligned_load_def drop_take min_def)

text \<open>The block loop reads the first \<open>len\<close> bytes only.\<close>

lemma hash_blocks_take:
  "len \<le> length s \<Longrightarrow>
     hash_blocks (take len s) len h1 h2 =
       (case hash_blocks s len h1 h2 of (s', l', a, b) \<Rightarrow> (take l' s', l', a, b))"
proof (induction s len h1 h2 rule: hash_blocks.induct)
  case (1 start len h1 h2)
  show ?case
  proof (cases "len \<ge> 16")
    case True
    have l0: "sz_u64_unaligned_load (take len start) 0 = sz_u64_unaligned_load start 0"
      using True by (simp add: load_take)
    have l8: "sz_u64_unaligned_load (take len start) 8 = sz_u64_unaligned_load start 8"
      using True by (simp add: load_take)
    have d: "drop 16 (take len start) = take (len - 16) (drop 16 start)"
      by (simp add: drop_take)
    have le: "len - 16 \<le> length (drop 16 start)"
      using "1.prems" by simp
    note IH = "1.IH" [OF True refl refl refl refl refl refl refl refl refl refl refl refl refl refl refl refl le]
    show ?thesis
      using True
      by (simp only: hash_blocks.simps [of "take len start" len h1 h2]
            hash_blocks.simps [of start len h1 h2] l0 l8 d Let_def if_True IH)
  next
    case False
    then show ?thesis
      by (simp add: hash_blocks.simps [of "take len start" len] hash_blocks.simps [of start len])
  qed
qed

lemma hash_blocks_len:
  "hash_blocks s len h1 h2 = (s', l', a, b) \<Longrightarrow>
     l' < 16 \<and> (len \<le> length s \<longrightarrow> l' \<le> length s')"
proof (induction s len h1 h2 rule: hash_blocks.induct)
  case (1 start len h1 h2)
  show ?case
  proof (cases "len \<ge> 16")
    case True
    note IH = "1.IH" [OF True refl refl refl refl refl refl refl refl refl refl refl refl refl refl refl refl]
    have "hash_blocks start len h1 h2 = (s', l', a, b)" by (rule "1.prems")
    then show ?thesis
      using True
      apply (simp only: hash_blocks.simps [of start len h1 h2] Let_def if_True)
      apply (drule IH)
      apply simp
      done
  next
    case False
    then show ?thesis using "1.prems"
      by (simp add: hash_blocks.simps [of start len])
  qed
qed

lemma hash_tail_take:
  "r \<le> l \<Longrightarrow> hash_tail (take l s) r h1 h2 = hash_tail s r h1 h2"
  by (simp add: hash_tail_def Let_def)

lemma sz_hash_serial_take:
  assumes "n \<le> length s"
  shows "sz_hash_serial (take n s) n = sz_hash_serial s n"
proof -
  obtain s' l' a b where hb: "hash_blocks s n (of_nat n) (of_nat n) = (s', l', a, b)"
    by (metis prod_cases4)
  from hash_blocks_len [OF hb] have l: "l' < 16" by simp
  have "hash_blocks (take n s) n (of_nat n) (of_nat n) = (take l' s', l', a, b)"
    using hash_blocks_take [OF assms, of "of_nat n" "of_nat n"] hb by simp
  moreover have "hash_tail (take l' s') (l' mod 16) a b = hash_tail s' (l' mod 16) a b"
    using l by (intro hash_tail_take) simp
  ultimately show ?thesis
    using assms hb by (simp add: sz_hash_serial_def)
qed

text \<open>
  Claim C8. \<open>hash\<close> is a pure function of the input bytes: two calls on identical byte
  sequences give the same 64-bit digest; and the hash of the empty string is 0.

  The digest of \<open>n\<close> readable bytes is a value (no fault) that depends on nothing but
  those \<open>n\<close> bytes: two calls whose first \<open>n\<close> bytes agree return the same digest,
  whatever follows the bytes in memory. With length 0 the digest is 0 for every pointer.
\<close>

theorem sz_hash_serial_pure_and_empty:
  "sz_hash_serial start 0 = Inr 0
   \<and> (n \<le> length t1 \<and> n \<le> length t2 \<and> take n t1 = take n t2
        \<longrightarrow> sz_hash_serial t1 n = sz_hash_serial t2 n \<and> (\<exists>d. sz_hash_serial t1 n = Inr d))"
proof (intro conjI impI)
  show "sz_hash_serial start 0 = Inr 0"
    by (simp add: sz_hash_serial_def hash_blocks.simps [of start 0] hash_tail_def)
next
  assume a: "n \<le> length t1 \<and> n \<le> length t2 \<and> take n t1 = take n t2"
  have "sz_hash_serial t1 n = sz_hash_serial (take n t1) n"
    using a [THEN conjunct1] by (simp add: sz_hash_serial_take)
  also have "\<dots> = sz_hash_serial (take n t2) n"
    using a by simp
  also have "\<dots> = sz_hash_serial t2 n"
    using a by (simp add: sz_hash_serial_take)
  finally show "sz_hash_serial t1 n = sz_hash_serial t2 n" .
  show "\<exists>d. sz_hash_serial t1 n = Inr d"
    using a by (auto simp add: sz_hash_serial_def split: prod.splits)
qed

theorem sz_hash_serial_pure_and_empty_witness:
  "sz_hash_serial [] 0 = Inr 0
   \<and> 3 \<le> length [1, 2, 3, 9 :: c_char] \<and> 3 \<le> length [1, 2, 3, 7, 7 :: c_char]
   \<and> take 3 [1, 2, 3, 9] = take 3 [1, 2, 3, 7, 7 :: c_char]
   \<and> sz_hash_serial [1, 2, 3, 9] 3 = sz_hash_serial [1, 2, 3, 7, 7] 3"
  using sz_hash_serial_pure_and_empty
          [where start = "[]" and n = 3 and ?t1.0 = "[1, 2, 3, 9]" and ?t2.0 = "[1, 2, 3, 7, 7]"]
  by simp

end
